theory Spec2Isabelle
  imports Complex_Main "HOL-Library.Multiset" "HOL-Library.AList"
begin
section \<open>Numbers\<close>

text \<open>
  A JavaScript number is a double. The model represents a finite double by the
  real number it denotes and every arithmetic operation of the source on such
  numbers by the exact operation followed by \<open>roundDouble\<close>, the rounding to the
  nearest double with ties to the even significand: 53 significant bits, the
  subnormal spacing \<open>2 powi - 1074\<close> below \<open>2 powi - 1022\<close>. Infinities and
  \<^verbatim>\<open>NaN\<close> are outside the model (no magnitude reaches \<open>2 ^ 1024\<close> in the code that is
  modelled). Counts, clock readings and sums of milliseconds are integers, on which
  the operations of the source are exact.
\<close>

definition roundHalfEven :: "real \<Rightarrow> int" where
  "roundHalfEven q =
     (let f = \<lfloor>q\<rfloor> in
      if q - of_int f < 1 / 2 then f
      else if 1 / 2 < q - of_int f then f + 1
      else if even f then f else f + 1)"

text \<open>
  The binary exponent of a positive number \<open>x\<close>: the \<open>e\<close> with
  \<open>2 powi e \<le> x < 2 powi (e + 1)\<close>, found by halving or doubling \<open>x\<close> until it lies
  in \<open>[1, 2)\<close>; 2200 steps reach every exponent of a double.
\<close>

fun exponentSearch :: "nat \<Rightarrow> real \<Rightarrow> int \<Rightarrow> int" where
  "exponentSearch 0 x e = e"
| "exponentSearch (Suc fuel) x e =
     (if 2 \<le> x then exponentSearch fuel (x / 2) (e + 1)
      else if x < 1 then exponentSearch fuel (x * 2) (e - 1)
      else e)"

definition binaryExponent :: "real \<Rightarrow> int" where
  "binaryExponent x = exponentSearch 2200 \<bar>x\<bar> 0"

definition roundDouble :: "real \<Rightarrow> real" where
  "roundDouble x =
     (if x = 0 then 0
      else (let e = max (binaryExponent x) (- 1022);
                ulp = 2 powi (e - 52)
            in of_int (roundHalfEven (x / ulp)) * ulp))"

section \<open>Weighted method selection\<close>

text \<open>
  The ambient generator \<^verbatim>\<open>Math.random\<close> is the stream \<open>rand\<close> of its successive
  results, which are doubles in \<open>[0, 1)\<close>, together with the number of values drawn
  so far.

  A weight table is the list of \<^verbatim>\<open>Object.entries\<close> of the weights object, in its
  enumeration order.
\<close>

type_synonym weights = "(string \<times> real) list"

text \<open>\<^verbatim>\<open>requestWeights.methods\<close> of \<^verbatim>\<open>src/config/requestPatterns.js\<close>.\<close>

definition methods :: weights where
  "methods =
    [(''eth_getblockbynumber'', 15),
     (''eth_getlogs'', 12),
     (''eth_subscribe'', 11),
     (''eth_call'', 10),
     (''abci_query'', 10),
     (''sei_getlogs'', 8),
     (''eth_blocknumber'', 7),
     (''eth_gettransactionreceipt'', 7),
     (''debug_traceblockbynumber'', 6),
     (''eth_getbalance'', 5),
     (''other'', 9)]"

text \<open>\<^verbatim>\<open>LoadTester.weights\<close> of \<^verbatim>\<open>src/modes/load/loadTester.js\<close>.\<close>

definition weights :: weights where
  "weights =
    [(''other'', 30),
     (''eth_getblockreceipts'', 12),
     (''sei_getblockbynumber'', 10),
     (''block'', 9),
     (''eth_gettransactionreceipt'', 8),
     (''debug_traceblockbyhash'', 7),
     (''tx_search'', 6),
     (''block_results'', 5),
     (''eth_gettransactioncount'', 5),
     (''sei_getseiaddress'', 4),
     (''/cosmos/tx/v1beta1/txs'', 4)]"

text \<open>\<^verbatim>\<open>methods.reduce((sum, [_, weight]) => sum + weight, 0)\<close>\<close>

definition totalWeight :: "weights \<Rightarrow> real" where
  "totalWeight ms = foldl (\<lambda>sum (_, weight). roundDouble (sum + weight)) 0 ms"

text \<open>
  The inner loop of \<^verbatim>\<open>generateRequestSequence\<close>:
  \<^verbatim>\<open>for (const [method, weight] of methods) {
      if (random < weight) { sequence.push(method); break; }
      random -= weight; }\<close>
  \<open>None\<close> when the loop ends without a push.
\<close>

fun selectMethod :: "weights \<Rightarrow> real \<Rightarrow> string option" where
  "selectMethod [] random = None"
| "selectMethod ((method, weight) # rest) random =
     (if random < weight then Some method
      else selectMethod rest (roundDouble (random - weight)))"

text \<open>
  The outer loop \<^verbatim>\<open>for (let i = 0; i < totalRequests; i++)\<close>; every iteration
  draws once from \<^verbatim>\<open>Math.random\<close>. The state is the sequence built so far and the
  number of values drawn.
\<close>

function sequenceLoop ::
  "(nat \<Rightarrow> real) \<Rightarrow> weights \<Rightarrow> real \<Rightarrow> nat \<Rightarrow> nat \<Rightarrow> string list \<times> nat \<Rightarrow> string list \<times> nat"
where
  "sequenceLoop rand ms tw totalRequests i (sequence, drawn) =
     (if i < totalRequests then
        (let random = roundDouble (rand drawn * tw) in
         sequenceLoop rand ms tw totalRequests (i + 1)
           (case selectMethod ms random of
              Some method \<Rightarrow> sequence @ [method]
            | None \<Rightarrow> sequence,
            drawn + 1))
      else (sequence, drawn))"
  by pat_completeness auto
termination
  by (relation "measure (\<lambda>(rand, ms, tw, totalRequests, i, st). totalRequests - i)") auto

declare sequenceLoop.simps [simp del]

definition generateRequestSequence ::
  "(nat \<Rightarrow> real) \<Rightarrow> nat \<Rightarrow> weights \<Rightarrow> nat \<Rightarrow> string list \<times> nat"
where
  "generateRequestSequence rand drawn ms totalRequests =
     sequenceLoop rand ms (totalWeight ms) totalRequests 0 ([], drawn)"

text \<open>
  The loop of \<^verbatim>\<open>LoadTester.generateWeightedRequest\<close>:
  \<^verbatim>\<open>for (const [method, weight] of Object.entries(this.weights)) {
      random -= weight;
      if (random <= 0) return method; }
  return 'other';\<close>
\<close>

fun weightedLoop :: "weights \<Rightarrow> real \<Rightarrow> string" where
  "weightedLoop [] random = ''other''"
| "weightedLoop ((method, weight) # rest) random =
     (let random' = roundDouble (random - weight)
      in if random' \<le> 0 then method else weightedLoop rest random')"

definition generateWeightedRequest :: "(nat \<Rightarrow> real) \<Rightarrow> nat \<Rightarrow> weights \<Rightarrow> string \<times> nat" where
  "generateWeightedRequest rand drawn ws =
     (let tw = foldl (\<lambda>a b. roundDouble (a + b)) 0 (map snd ws);
          random = roundDouble (rand drawn * tw)
      in (weightedLoop ws random, drawn + 1))"

text \<open>The cumulative weight of the first \<open>k\<close> entries of a table.\<close>

definition cumulative :: "weights \<Rightarrow> nat \<Rightarrow> real" where
  "cumulative ms k = sum_list (map snd (take k ms))"


text \<open>
  The two readings of the selection rule, as predicates on the index \<open>k\<close> of
  the selected entry: the cumulative weight first strictly exceeds the draw at
  \<open>k\<close>; the remainder \<open>r - cumulative\<close> first becomes non-positive at \<open>k\<close>.
\<close>

definition strictlyExceedsAt :: "weights \<Rightarrow> real \<Rightarrow> nat \<Rightarrow> bool" where
  "strictlyExceedsAt ms r k \<longleftrightarrow>
     k < length ms \<and> r < cumulative ms (Suc k) \<and> (\<forall>j<k. cumulative ms (Suc j) \<le> r)"

definition nonPositiveAt :: "weights \<Rightarrow> real \<Rightarrow> nat \<Rightarrow> bool" where
  "nonPositiveAt ms r k \<longleftrightarrow>
     k < length ms \<and> r - cumulative ms (Suc k) \<le> 0 \<and> (\<forall>j<k. 0 < r - cumulative ms (Suc j))"

text \<open>
  \<open>exactRemainders ms r\<close>: every subtraction \<^verbatim>\<open>random -= weight\<close> that the loops make
  from the draw \<open>r\<close> with a result that is not negative is exact, that is, its
  result is a double. This is so for the integer weights of the two tables.
\<close>

fun exactRemainders :: "weights \<Rightarrow> real \<Rightarrow> bool" where
  "exactRemainders [] r = True"
| "exactRemainders ((method, weight) # rest) r =
     (weight \<le> r \<longrightarrow>
        roundDouble (r - weight) = r - weight \<and> exactRemainders rest (r - weight))"

text \<open>
  The doubles nearest to \<open>0.48\<close> and to \<open>0.3\<close>, and a generator that returns the
  same value at every call, for concrete runs.
\<close>

definition double048 :: real where
  "double048 = 1080863910568919 / 2 ^ 51"

definition double03 :: real where
  "double03 = 5404319552844595 / 2 ^ 54"


definition constantRandom :: "real \<Rightarrow> nat \<Rightarrow> real" where
  "constantRandom u n = u"

text \<open>
  What one pass of the outer loop of \<^verbatim>\<open>generateRequestSequence\<close> pushes for the
  draw \<open>random\<close>: the selected method, or nothing.
\<close>

definition pushed :: "weights \<Rightarrow> real \<Rightarrow> string list" where
  "pushed ms random = (case selectMethod ms random of Some method \<Rightarrow> [method] | None \<Rightarrow> [])"

section \<open>Structural fingerprints of response bodies\<close>

text \<open>
  A response body is a JavaScript value. An object is the list of its own enumerable
  properties in \<^verbatim>\<open>Object.keys\<close> order. \<open>JUndefined\<close> stands for the values that
  reach the \<^verbatim>\<open>default\<close> branch of the \<^verbatim>\<open>typeof\<close> switch with tag \<^verbatim>\<open>'undefined'\<close>.
\<close>

datatype json =
    JUndefined
  | JNull
  | JBoolean bool
  | JNumber real
  | JString string
  | JArray "json list"
  | JObject "(string \<times> json) list"

text \<open>
  The values \<^verbatim>\<open>createStructuralPattern\<close> builds: a tag string, a one-element
  array, or an object of patterns.
\<close>

datatype pattern =
    PString string
  | PArray "pattern list"
  | PObject "(string \<times> pattern) list"

text \<open>
  \<^verbatim>\<open>acc[key] = value\<close> on the accumulator of the \<^verbatim>\<open>reduce\<close>, which starts as
  \<^verbatim>\<open>{}\<close>: a new key is appended, an existing key keeps its place, and the key
  \<^verbatim>\<open>__proto__\<close> reaches the inherited setter and creates no own property.
\<close>

definition assign :: "(string \<times> pattern) list \<Rightarrow> string \<Rightarrow> pattern \<Rightarrow> (string \<times> pattern) list" where
  "assign acc key v = (if key = ''__proto__'' then acc else AList.update key v acc)"

text \<open>
  \<^verbatim>\<open>createStructuralPattern(data, depth = 0)\<close>; \<open>reduceKeys\<close> is the
  \<^verbatim>\<open>Object.keys(data).reduce(..., {})\<close> of the object branch with its accumulator.
\<close>

fun createStructuralPattern :: "json \<Rightarrow> nat \<Rightarrow> pattern"
  and reduceKeys :: "(string \<times> json) list \<Rightarrow> nat \<Rightarrow> (string \<times> pattern) list \<Rightarrow> (string \<times> pattern) list"
where
  "createStructuralPattern (JArray []) depth =
     (if depth > 3 then PString ''MAX_DEPTH'' else PString ''EMPTY_ARRAY'')"
| "createStructuralPattern (JArray (x # rest)) depth =
     (if depth > 3 then PString ''MAX_DEPTH''
      else PArray [createStructuralPattern x (depth + 1)])"
| "createStructuralPattern JNull depth =
     (if depth > 3 then PString ''MAX_DEPTH'' else PString ''NULL'')"
| "createStructuralPattern (JObject kvs) depth =
     (if depth > 3 then PString ''MAX_DEPTH'' else PObject (reduceKeys kvs depth []))"
| "createStructuralPattern (JString s) depth =
     (if depth > 3 then PString ''MAX_DEPTH'' else PString ''STRING'')"
| "createStructuralPattern (JNumber n) depth =
     (if depth > 3 then PString ''MAX_DEPTH'' else PString ''NUMBER'')"
| "createStructuralPattern (JBoolean b) depth =
     (if depth > 3 then PString ''MAX_DEPTH'' else PString ''BOOLEAN'')"
| "createStructuralPattern JUndefined depth =
     (if depth > 3 then PString ''MAX_DEPTH'' else PString ''undefined'')"
| "reduceKeys [] depth acc = acc"
| "reduceKeys ((key, v) # rest) depth acc =
     reduceKeys rest depth (assign acc key (createStructuralPattern v (depth + 1)))"

text \<open>
  \<^verbatim>\<open>JSON.stringify\<close> on a pattern. A string is quoted with the escapes of
  the language standard for the quote, the backslash and the control characters.
\<close>

definition hexDigit :: "nat \<Rightarrow> char" where
  "hexDigit n = ''0123456789abcdef'' ! (n mod 16)"

definition escapeChar :: "char \<Rightarrow> string" where
  "escapeChar c =
     (if c = CHR 0x22 then [CHR 0x5C, CHR 0x22]
      else if c = CHR 0x5C then [CHR 0x5C, CHR 0x5C]
      else if c = CHR 0x08 then [CHR 0x5C, CHR ''b'']
      else if c = CHR 0x0C then [CHR 0x5C, CHR ''f'']
      else if c = CHR 0x0A then [CHR 0x5C, CHR ''n'']
      else if c = CHR 0x0D then [CHR 0x5C, CHR ''r'']
      else if c = CHR 0x09 then [CHR 0x5C, CHR ''t'']
      else if (of_char c :: nat) < 32
        then [CHR 0x5C, CHR ''u'', CHR ''0'', CHR ''0'',
              hexDigit (of_char c div 16), hexDigit (of_char c)]
      else [c])"

definition quoteString :: "string \<Rightarrow> string" where
  "quoteString s = [CHR 0x22] @ concat (map escapeChar s) @ [CHR 0x22]"

fun stringify :: "pattern \<Rightarrow> string"
  and stringifyElements :: "pattern list \<Rightarrow> string"
  and stringifyProperties :: "(string \<times> pattern) list \<Rightarrow> string"
where
  "stringify (PString s) = quoteString s"
| "stringify (PArray ps) = ''['' @ stringifyElements ps @ '']''"
| "stringify (PObject kvs) = ''{'' @ stringifyProperties kvs @ ''}''"
| "stringifyElements [] = []"
| "stringifyElements [p] = stringify p"
| "stringifyElements (p # q # ps) = stringify p @ '','' @ stringifyElements (q # ps)"
| "stringifyProperties [] = []"
| "stringifyProperties [(k, v)] = quoteString k @ '':'' @ stringify v"
| "stringifyProperties ((k, v) # kv # kvs) =
     quoteString k @ '':'' @ stringify v @ '','' @ stringifyProperties (kv # kvs)"

text \<open>\<^verbatim>\<open>extractResponsePattern(data)\<close>: the fingerprint of a response body.\<close>

definition extractResponsePattern :: "json \<Rightarrow> string" where
  "extractResponsePattern data = stringify (createStructuralPattern data 0)"


text \<open>
  \<open>graft n z x\<close> replaces every subtree of \<open>x\<close> that lies \<open>n\<close> levels below
  the root by \<open>z\<close>: the values that differ from \<open>x\<close> only at depth \<open>n\<close> and below.
\<close>

fun graft :: "nat \<Rightarrow> json \<Rightarrow> json \<Rightarrow> json" where
  "graft 0 z x = z"
| "graft (Suc n) z (JArray xs) = JArray (map (graft n z) xs)"
| "graft (Suc n) z (JObject kvs) = JObject (map (\<lambda>(k, v). (k, graft n z v)) kvs)"
| "graft (Suc n) z x = x"

text \<open>
  \<open>sameShape n x y\<close>: on their first \<open>n\<close> levels (depths \<open>0\<close> to \<open>n - 1\<close>) the
  two values have identical key sets, key order, nesting structure and primitive
  type tags; primitive values may differ.
\<close>

fun sameShape :: "nat \<Rightarrow> json \<Rightarrow> json \<Rightarrow> bool" where
  "sameShape 0 x y = True"
| "sameShape (Suc n) JUndefined y = (y = JUndefined)"
| "sameShape (Suc n) JNull y = (y = JNull)"
| "sameShape (Suc n) (JBoolean b) y = (case y of JBoolean c \<Rightarrow> True | _ \<Rightarrow> False)"
| "sameShape (Suc n) (JNumber a) y = (case y of JNumber b \<Rightarrow> True | _ \<Rightarrow> False)"
| "sameShape (Suc n) (JString s) y = (case y of JString t \<Rightarrow> True | _ \<Rightarrow> False)"
| "sameShape (Suc n) (JArray xs) y =
     (case y of JArray ys \<Rightarrow> list_all2 (sameShape n) xs ys | _ \<Rightarrow> False)"
| "sameShape (Suc n) (JObject kvs) y =
     (case y of
        JObject kvs' \<Rightarrow>
          map fst kvs = map fst kvs' \<and> list_all2 (sameShape n) (map snd kvs) (map snd kvs')
      | _ \<Rightarrow> False)"

text \<open>
  Objects nested three, four and five levels deep along the same keys, and two
  response bodies of the same shape with different values, for concrete runs.
\<close>

definition nestedThree :: json where
  "nestedThree = JObject [(''a'', JObject [(''b'', JObject [(''c'', JNumber 1)])])]"

definition nestedFour :: json where
  "nestedFour = JObject [(''a'', JObject [(''b'', JObject [(''c'', JObject [(''d'', JNumber 1)])])])]"

definition nestedFive :: json where
  "nestedFive =
     JObject [(''a'', JObject [(''b'', JObject [(''c'', JObject [(''d'', JObject [(''e'', JNumber 1)])])])])]"

definition sampleBodyA :: json where
  "sampleBodyA =
     JObject [(''height'', JString ''100''), (''txs'', JArray [JNumber 1, JNumber 2]),
              (''ok'', JBoolean True), (''next'', JNull)]"

definition sampleBodyB :: json where
  "sampleBodyB =
     JObject [(''height'', JString ''7''), (''txs'', JArray [JNumber 30, JNumber 4]),
              (''ok'', JBoolean False), (''next'', JNull)]"

section \<open>Metric collector\<close>

text \<open>
  The \<^verbatim>\<open>Map\<close>s of \<^verbatim>\<open>MetricCollector.metrics\<close> are finite maps from the endpoint;
  durations and clock readings (\<^verbatim>\<open>Date.now()\<close>) are integers of milliseconds.
\<close>

record snapshot =
  snapshotTimestamp :: int
  snapshotRequestCounts :: "string \<rightharpoonup> nat"
  snapshotErrorRates :: "string \<rightharpoonup> real"
  snapshotAverageLatencies :: "string \<rightharpoonup> int"
  snapshotRateLimitTotal :: nat
  snapshotRecentHits :: nat

record MetricCollector =
  requestCounts :: "string \<rightharpoonup> nat"
  latencies :: "string \<rightharpoonup> int list"
  errors :: "string \<rightharpoonup> nat"
  timestamps :: "string \<rightharpoonup> int list"
  rateLimitHits :: nat
  rateLimitTimestamps :: "int list"
  snapshots :: "snapshot list"
  startTime :: int

text \<open>The constructor, run at clock reading \<open>now\<close>.\<close>

definition newMetricCollector :: "int \<Rightarrow> MetricCollector" where
  "newMetricCollector now =
     \<lparr> requestCounts = Map.empty, latencies = Map.empty, errors = Map.empty,
       timestamps = Map.empty, rateLimitHits = 0, rateLimitTimestamps = [],
       snapshots = [], startTime = now \<rparr>"

text \<open>
  The \<^verbatim>\<open>data\<close> argument of \<^verbatim>\<open>recordRequest\<close>; \<^verbatim>\<open>rateLimited\<close> is false where the
  caller leaves it out. The \<^verbatim>\<open>error\<close> field is destructured and never read.
\<close>

record requestData =
  duration :: int
  success :: bool
  rateLimited :: bool

text \<open>\<^verbatim>\<open>map.set(key, (map.get(key) || 0) + 1)\<close>\<close>

definition incrementMapValue :: "(string \<rightharpoonup> nat) \<Rightarrow> string \<Rightarrow> (string \<rightharpoonup> nat)" where
  "incrementMapValue m key = m(key \<mapsto> (case m key of None \<Rightarrow> 0 | Some n \<Rightarrow> n) + 1)"

text \<open>
  \<^verbatim>\<open>if (!map.has(endpoint)) map.set(endpoint, []); map.get(endpoint).push(v)\<close>
\<close>

definition pushMapValue :: "(string \<rightharpoonup> int list) \<Rightarrow> string \<Rightarrow> int \<Rightarrow> (string \<rightharpoonup> int list)" where
  "pushMapValue m key v = m(key \<mapsto> (case m key of None \<Rightarrow> [] | Some vs \<Rightarrow> vs) @ [v])"

definition recordRequest :: "MetricCollector \<Rightarrow> int \<Rightarrow> string \<Rightarrow> requestData \<Rightarrow> MetricCollector" where
  "recordRequest mc now endpoint data =
     (let mc1 = mc\<lparr> requestCounts := incrementMapValue (requestCounts mc) endpoint \<rparr>;
          mc2 = mc1\<lparr> latencies := pushMapValue (latencies mc1) endpoint (duration data) \<rparr>;
          mc3 = mc2\<lparr> timestamps := pushMapValue (timestamps mc2) endpoint now \<rparr>;
          mc4 = (if \<not> success data
                 then mc3\<lparr> errors := incrementMapValue (errors mc3) endpoint \<rparr>
                 else mc3)
      in if rateLimited data
         then mc4\<lparr> rateLimitHits := rateLimitHits mc4 + 1,
                   rateLimitTimestamps := rateLimitTimestamps mc4 @ [now] \<rparr>
         else mc4)"

text \<open>
  \<^verbatim>\<open>x.toFixed(digits)\<close>, as the decimal value its result string denotes: the
  nearest multiple of \<open>10\<^sup>-\<^sup>d\<close>, the larger one on a tie, the sign treated apart.
\<close>

definition toFixed :: "real \<Rightarrow> nat \<Rightarrow> real" where
  "toFixed x digits =
     (if x < 0 then - (of_int \<lfloor>- x * 10 ^ digits + 1 / 2\<rfloor> / 10 ^ digits)
      else of_int \<lfloor>x * 10 ^ digits + 1 / 2\<rfloor> / 10 ^ digits)"

text \<open>\<^verbatim>\<open>Math.round\<close>: the nearest integer, the larger one on a tie.\<close>

definition mathRound :: "real \<Rightarrow> int" where
  "mathRound x = \<lfloor>x + 1 / 2\<rfloor>"

definition calculateErrorRates :: "MetricCollector \<Rightarrow> (string \<rightharpoonup> real)" where
  "calculateErrorRates mc endpoint =
     (case requestCounts mc endpoint of
        None \<Rightarrow> None
      | Some cnt \<Rightarrow>
          (let errs = (case errors mc endpoint of None \<Rightarrow> 0 | Some e \<Rightarrow> e)
           in Some (toFixed (roundDouble (roundDouble (real errs / real cnt) * 100)) 2)))"

definition calculateAverageLatencies :: "MetricCollector \<Rightarrow> (string \<rightharpoonup> int)" where
  "calculateAverageLatencies mc endpoint =
     (case latencies mc endpoint of
        None \<Rightarrow> None
      | Some ls \<Rightarrow>
          (if length ls > 0
           then (let avg = roundDouble (real_of_int (foldl (\<lambda>a b. a + b) 0 ls) / real (length ls))
                 in Some (mathRound avg))
           else None))"

definition getRecentRateLimitHits :: "MetricCollector \<Rightarrow> int \<Rightarrow> int \<Rightarrow> nat" where
  "getRecentRateLimitHits mc now windowMs =
     length (filter (\<lambda>ts. now - ts \<le> windowMs) (rateLimitTimestamps mc))"

definition takeSnapshot :: "MetricCollector \<Rightarrow> int \<Rightarrow> snapshot \<times> MetricCollector" where
  "takeSnapshot mc now =
     (let snap = \<lparr> snapshotTimestamp = now,
                   snapshotRequestCounts = requestCounts mc,
                   snapshotErrorRates = calculateErrorRates mc,
                   snapshotAverageLatencies = calculateAverageLatencies mc,
                   snapshotRateLimitTotal = rateLimitHits mc,
                   snapshotRecentHits = getRecentRateLimitHits mc now 60000 \<rparr>
      in (snap, mc\<lparr> snapshots := snapshots mc @ [snap] \<rparr>))"

text \<open>
  A run of the collector: the calls of \<^verbatim>\<open>recordRequest\<close> in the order they are
  made, each with the clock reading of the call.
\<close>

record call =
  callTime :: int
  callEndpoint :: string
  callData :: requestData

fun recordAll :: "MetricCollector \<Rightarrow> call list \<Rightarrow> MetricCollector" where
  "recordAll mc [] = mc"
| "recordAll mc (c # cs) =
     recordAll (recordRequest mc (callTime c) (callEndpoint c) (callData c)) cs"

text \<open>The per-endpoint figures the claims speak of: absent keys count as zero.\<close>

definition countOf :: "MetricCollector \<Rightarrow> string \<Rightarrow> nat" where
  "countOf mc endpoint = (case requestCounts mc endpoint of None \<Rightarrow> 0 | Some n \<Rightarrow> n)"

definition errorsOf :: "MetricCollector \<Rightarrow> string \<Rightarrow> nat" where
  "errorsOf mc endpoint = (case errors mc endpoint of None \<Rightarrow> 0 | Some n \<Rightarrow> n)"

definition latenciesOf :: "MetricCollector \<Rightarrow> string \<Rightarrow> int list" where
  "latenciesOf mc endpoint = (case latencies mc endpoint of None \<Rightarrow> [] | Some ls \<Rightarrow> ls)"

definition timestampsOf :: "MetricCollector \<Rightarrow> string \<Rightarrow> int list" where
  "timestampsOf mc endpoint = (case timestamps mc endpoint of None \<Rightarrow> [] | Some ts \<Rightarrow> ts)"


section \<open>Request batches\<close>

text \<open>
  \<^verbatim>\<open>requestWeights.templates\<close>: for each key the HTTP method and the result of
  \<^verbatim>\<open>createParams()\<close> called without arguments at clock reading \<open>now\<close>, as
  \<^verbatim>\<open>generateBatch\<close> calls it. The table has no entry for \<^verbatim>\<open>'other'\<close>.
\<close>

definition templates :: "(string \<times> string \<times> (int \<Rightarrow> json)) list" where
  "templates =
    [(''eth_getblockbynumber'', ''POST'', \<lambda>now. JObject
        [(''jsonrpc'', JString ''2.0''), (''method'', JString ''eth_getBlockByNumber''),
         (''params'', JArray [JString ''latest'', JBoolean True]),
         (''id'', JNumber (of_int now))]),
     (''eth_getlogs'', ''POST'', \<lambda>now. JObject
        [(''jsonrpc'', JString ''2.0''), (''method'', JString ''eth_getLogs''),
         (''params'', JArray [JObject [(''fromBlock'', JString ''latest''),
                                       (''toBlock'', JString ''latest'')]]),
         (''id'', JNumber (of_int now))]),
     (''eth_subscribe'', ''POST'', \<lambda>now. JObject
        [(''jsonrpc'', JString ''2.0''), (''method'', JString ''eth_subscribe''),
         (''params'', JArray [JString ''newHeads'']),
         (''id'', JNumber (of_int now))]),
     (''eth_call'', ''POST'', \<lambda>now. JObject
        [(''jsonrpc'', JString ''2.0''), (''method'', JString ''eth_call''),
         (''params'', JArray [JUndefined, JString ''latest'']),
         (''id'', JNumber (of_int now))]),
     (''abci_query'', ''GET'', \<lambda>now. JObject
        [(''path'', JUndefined), (''data'', JUndefined),
         (''height'', JString ''0''), (''prove'', JBoolean False)]),
     (''sei_getlogs'', ''GET'', \<lambda>now. JObject []),
     (''eth_blocknumber'', ''POST'', \<lambda>now. JObject
        [(''jsonrpc'', JString ''2.0''), (''method'', JString ''eth_blockNumber''),
         (''params'', JArray []),
         (''id'', JNumber (of_int now))]),
     (''eth_gettransactionreceipt'', ''POST'', \<lambda>now. JObject
        [(''jsonrpc'', JString ''2.0''), (''method'', JString ''eth_getTransactionReceipt''),
         (''params'', JArray [JUndefined]),
         (''id'', JNumber (of_int now))]),
     (''debug_traceblockbynumber'', ''POST'', \<lambda>now. JObject
        [(''jsonrpc'', JString ''2.0''), (''method'', JString ''debug_traceBlockByNumber''),
         (''params'', JArray [JUndefined, JObject []]),
         (''id'', JNumber (of_int now))]),
     (''eth_getbalance'', ''POST'', \<lambda>now. JObject
        [(''jsonrpc'', JString ''2.0''), (''method'', JString ''eth_getBalance''),
         (''params'', JArray [JUndefined, JString ''latest'']),
         (''id'', JNumber (of_int now))])]"

record descriptor =
  descriptorMethod :: string
  descriptorType :: string
  descriptorParams :: json

text \<open>
  The callback of \<^verbatim>\<open>sequence.map\<close> in \<^verbatim>\<open>generateBatch\<close>: \<open>None\<close> is the
  \<^verbatim>\<open>null\<close> returned for a method without a template.
\<close>

definition toDescriptor :: "int \<Rightarrow> string \<Rightarrow> descriptor option" where
  "toDescriptor now method =
     (case map_of templates method of
        None \<Rightarrow> None
      | Some (httpMethod, createParams) \<Rightarrow>
          Some \<lparr> descriptorMethod = httpMethod, descriptorType = method,
                 descriptorParams = createParams now \<rparr>)"

text \<open>
  \<^verbatim>\<open>RequestQueueGenerator.generateBatch\<close> for the configured \<^verbatim>\<open>batchSize\<close>:
  \<^verbatim>\<open>sequence.map(...).filter(Boolean)\<close>.
\<close>

definition generateBatch :: "(nat \<Rightarrow> real) \<Rightarrow> nat \<Rightarrow> int \<Rightarrow> nat \<Rightarrow> descriptor list \<times> nat" where
  "generateBatch rand drawn now batchSize =
     (let (sequence, drawn') = generateRequestSequence rand drawn methods batchSize
      in (map the (filter (\<lambda>d. d \<noteq> None) (map (toDescriptor now) sequence)), drawn'))"

section \<open>Worker loop and backpressure\<close>

text \<open>
  How the awaited \<^verbatim>\<open>makeRequest\<close> of a worker settles: with a response, or with an
  error that carries \<^verbatim>\<open>error.response?.status\<close>.
\<close>

datatype outcome = Responded | Rejected "nat option"

record workerResult =
  collector :: MetricCollector
  drawnAfter :: nat
  pause :: int

text \<open>
  One pass through the body of the \<^verbatim>\<open>for await\<close> loop of \<^verbatim>\<open>startWorker\<close>, from the
  moment the request settles at clock reading \<open>now\<close>: the metrics are recorded in
  the collector shared by all workers, a snapshot is taken with probability 1%, and
  the rate-limit check decides the time the worker waits (\<^verbatim>\<open>setTimeout\<close>) before
  the loop asks the queue for its next request; \<open>0\<close> is no wait. The response
  analyzer and the logger are not among the sources; their calls are taken to
  return and to leave the collector alone.
\<close>

definition workerIteration ::
  "MetricCollector \<Rightarrow> (nat \<Rightarrow> real) \<Rightarrow> nat \<Rightarrow> string \<Rightarrow> int \<Rightarrow> int \<Rightarrow> outcome \<Rightarrow> workerResult"
where
  "workerIteration mc rand drawn requestType requestStart now result =
     (let mc1 = (case result of
                   Responded \<Rightarrow>
                     recordRequest mc now requestType
                       \<lparr> duration = now - requestStart, success = True, rateLimited = False \<rparr>
                 | Rejected status \<Rightarrow>
                     recordRequest mc now requestType
                       \<lparr> duration = now - requestStart, success = False,
                         rateLimited = (status = Some 429) \<rparr>);
          mc2 = (if rand drawn < roundDouble (1 / 100) then snd (takeSnapshot mc1 now) else mc1)
      in \<lparr> collector = mc2, drawnAfter = drawn + 1,
           pause = (if getRecentRateLimitHits mc2 now 60000 > 10 then 1000 else 0) \<rparr>)"

text \<open>
  A run of the pool. Between two awaits the code of a worker runs without
  interruption, so the passes of all workers through the loop body form one
  sequence, ordered by the moment the request of each pass settles; all of them
  work on the one collector and the one generator. The worker that makes a pass
  has no influence on what the pass does.
\<close>

record iteration =
  iterationWorker :: string
  iterationType :: string
  iterationStart :: int
  iterationEnd :: int
  iterationResult :: outcome

fun poolRun :: "MetricCollector \<Rightarrow> (nat \<Rightarrow> real) \<Rightarrow> nat \<Rightarrow> iteration list \<Rightarrow> MetricCollector \<times> nat" where
  "poolRun mc rand drawn [] = (mc, drawn)"
| "poolRun mc rand drawn (it # its) =
     (let r = workerIteration mc rand drawn (iterationType it) (iterationStart it)
                (iterationEnd it) (iterationResult it)
      in poolRun (collector r) rand (drawnAfter r) its)"

text \<open>A pass that ends at time \<open>t\<close> with status 429, for concrete runs.\<close>

definition rateLimitedIteration :: "string \<Rightarrow> int \<Rightarrow> iteration" where
  "rateLimitedIteration worker t =
     \<lparr> iterationWorker = worker, iterationType = ''eth_call'', iterationStart = t - 20,
       iterationEnd = t, iterationResult = Rejected (Some 429) \<rparr>"

section \<open>Scenario execution\<close>

text \<open>
  \<^verbatim>\<open>array.slice(start, stop)\<close>, with the clamping of negative and overlong indices.
\<close>

definition slice :: "'a list \<Rightarrow> int \<Rightarrow> int \<Rightarrow> 'a list" where
  "slice array start stop =
     (let len = int (length array);
          k = (if start < 0 then max (len + start) 0 else min start len);
          final = (if stop < 0 then max (len + stop) 0 else min stop len)
      in take (nat (final - k)) (drop (nat k) array))"

text \<open>
  \<^verbatim>\<open>chunkArray(array, size)\<close>:
  \<^verbatim>\<open>for (let i = 0; i < array.length; i += size) chunks.push(array.slice(i, i + size))\<close>.
  The loop does not end for a non-positive size and a non-empty array, so the
  result is optional: \<open>None\<close> is a loop that never returns.
\<close>

partial_function (option) chunkLoop :: "'a list \<Rightarrow> int \<Rightarrow> int \<Rightarrow> 'a list list \<Rightarrow> 'a list list option" where
  "chunkLoop array chunkSize i chunks =
     (if i < int (length array)
      then chunkLoop array chunkSize (i + chunkSize) (chunks @ [slice array i (i + chunkSize)])
      else Some chunks)"

definition chunkArray :: "'a list \<Rightarrow> int \<Rightarrow> 'a list list option" where
  "chunkArray array chunkSize = chunkLoop array chunkSize 0 []"

record 'q scenario =
  scenarioName :: string
  scenarioWeight :: real
  scenarioQueries :: "'q list"

text \<open>
  What a run of \<^verbatim>\<open>runScenario\<close> leaves behind: the batches whose requests were
  issued, in order, and whether the loop went through all of them or was left by
  the rejection of \<^verbatim>\<open>Promise.all\<close>.
\<close>

datatype 'q scenarioRun = Completed "'q list list" | Aborted "'q list list"

text \<open>
  \<^verbatim>\<open>for (const batch of batches) { await Promise.all(batch.map(makeRequest)) }\<close>:
  all requests of a batch are issued before the batch is awaited; \<^verbatim>\<open>makeRequest\<close>
  rethrows the error of a failed request, which rejects \<^verbatim>\<open>Promise.all\<close> and ends
  the loop. \<open>responds q\<close> tells whether the request for \<open>q\<close> succeeds.
\<close>

fun runBatches :: "('q \<Rightarrow> bool) \<Rightarrow> 'q list list \<Rightarrow> 'q list list \<Rightarrow> 'q scenarioRun" where
  "runBatches responds [] issued = Completed issued"
| "runBatches responds (batch # rest) issued =
     (if list_all responds batch
      then runBatches responds rest (issued @ [batch])
      else Aborted (issued @ [batch]))"

definition effectiveConcurrency :: "real \<Rightarrow> 'q scenario \<Rightarrow> int" where
  "effectiveConcurrency initialConcurrency sc =
     \<lceil>roundDouble (initialConcurrency * scenarioWeight sc)\<rceil>"

definition runScenario :: "real \<Rightarrow> ('q \<Rightarrow> bool) \<Rightarrow> 'q scenario \<Rightarrow> 'q scenarioRun option" where
  "runScenario initialConcurrency responds sc =
     (let concurrency = effectiveConcurrency initialConcurrency sc;
          batchSize = min (int (length (scenarioQueries sc))) concurrency
      in case chunkArray (scenarioQueries sc) batchSize of
           None \<Rightarrow> None
         | Some batches \<Rightarrow> Some (runBatches responds batches []))"


text \<open>
  The \<open>(endpoint, duration, success)\<close> event of a call; the clock reading and the
  rate-limit flag are left out.
\<close>

definition eventOf :: "call \<Rightarrow> string \<times> int \<times> bool" where
  "eventOf c = (callEndpoint c, duration (callData c), success (callData c))"

text \<open>Two calls for the same endpoint, one of them a failure, for concrete runs.\<close>

definition sampleSuccess :: call where
  "sampleSuccess =
     \<lparr> callTime = 0, callEndpoint = ''eth_call'',
       callData = \<lparr> duration = 5, success = True, rateLimited = False \<rparr> \<rparr>"

definition sampleFailure :: call where
  "sampleFailure =
     \<lparr> callTime = 1, callEndpoint = ''eth_call'',
       callData = \<lparr> duration = 8, success = False, rateLimited = True \<rparr> \<rparr>"

text \<open>
  The consecutive chunks of \<open>n\<close> elements of a list, the last one holding the
  remainder: the closed form the result of \<^verbatim>\<open>chunkArray\<close> is compared with.
\<close>

definition batchesOf :: "nat \<Rightarrow> 'a list \<Rightarrow> 'a list list" where
  "batchesOf n xs = map (\<lambda>j. take n (drop (j * n) xs)) [0..<(length xs + n - 1) div n]"

text \<open>
  Requests that all succeed but the one for \<open>bad\<close>, and a scenario of four
  queries of weight 1, for concrete runs.
\<close>

definition respondsExcept :: "'q \<Rightarrow> 'q \<Rightarrow> bool" where
  "respondsExcept bad q \<longleftrightarrow> q \<noteq> bad"

definition fourQueries :: "string scenario" where
  "fourQueries =
     \<lparr> scenarioName = ''four-queries'', scenarioWeight = 1,
       scenarioQueries = [''/q1'', ''/q2'', ''/q3'', ''/q4''] \<rparr>"

section \<open>Properties of the rounding\<close>

lemma exponentSearch_numeral [simp]:
  "exponentSearch (numeral k) x e =
     (if 2 \<le> x then exponentSearch (pred_numeral k) (x / 2) (e + 1)
      else if x < 1 then exponentSearch (pred_numeral k) (x * 2) (e - 1)
      else e)"
  by (simp add: numeral_eq_Suc)

lemma roundHalfEven_mono_zero: "0 \<le> q \<Longrightarrow> 0 \<le> roundHalfEven q"
  by (auto simp: roundHalfEven_def Let_def)

lemma roundHalfEven_nonpos: "q \<le> 0 \<Longrightarrow> roundHalfEven q \<le> 0"
proof -
  assume q: "q \<le> 0"
  show ?thesis
  proof (cases "q = 0")
    case True
    then show ?thesis by (simp add: roundHalfEven_def)
  next
    case False
    with q have f: "\<lfloor>q\<rfloor> \<le> - 1" by (simp add: floor_le_iff)
    have "q - of_int \<lfloor>q\<rfloor> < 1" by linarith
    show ?thesis
    proof (cases "\<lfloor>q\<rfloor> = - 1")
      case True
      then have "even \<lfloor>q\<rfloor> = False" by simp
      with True q show ?thesis
        by (auto simp: roundHalfEven_def Let_def)
    next
      case False
      with f have "\<lfloor>q\<rfloor> + 1 \<le> 0" by simp
      with f show ?thesis by (auto simp: roundHalfEven_def Let_def)
    qed
  qed
qed

lemma roundHalfEven_error: "\<bar>of_int (roundHalfEven q) - q\<bar> \<le> 1 / 2"
proof -
  have "of_int \<lfloor>q\<rfloor> \<le> q" "q < of_int \<lfloor>q\<rfloor> + 1" by linarith+
  then show ?thesis by (auto simp: roundHalfEven_def Let_def abs_le_iff)
qed

lemma roundHalfEven_of_int [simp]: "roundHalfEven (of_int n) = n"
  by (simp add: roundHalfEven_def)

lemma roundDouble_nonneg: "0 \<le> x \<Longrightarrow> 0 \<le> roundDouble x"
  by (simp add: roundDouble_def Let_def roundHalfEven_mono_zero)

lemma roundDouble_nonpos: "x \<le> 0 \<Longrightarrow> roundDouble x \<le> 0"
proof -
  assume "x \<le> 0"
  then have "x / 2 powi (max (binaryExponent x) (- 1022) - 52) \<le> 0"
    by (simp add: divide_nonpos_pos)
  then have "roundHalfEven (x / 2 powi (max (binaryExponent x) (- 1022) - 52)) \<le> 0"
    by (rule roundHalfEven_nonpos)
  then show ?thesis
    by (simp add: roundDouble_def Let_def mult_le_0_iff)
qed

lemma roundDouble_error:
  "\<bar>roundDouble x - x\<bar> \<le> 2 powi (max (binaryExponent x) (- 1022) - 52) / 2"
proof (cases "x = 0")
  case True
  then show ?thesis by (simp add: roundDouble_def)
next
  case False
  define u :: real where "u = 2 powi (max (binaryExponent x) (- 1022) - 52)"
  have u: "0 < u" by (simp add: u_def)
  have "\<bar>of_int (roundHalfEven (x / u)) - x / u\<bar> \<le> 1 / 2" by (rule roundHalfEven_error)
  then have "\<bar>of_int (roundHalfEven (x / u)) - x / u\<bar> * u \<le> 1 / 2 * u"
    using u by (intro mult_right_mono) simp_all
  also have "\<bar>of_int (roundHalfEven (x / u)) - x / u\<bar> * u
      = \<bar>(of_int (roundHalfEven (x / u)) - x / u) * u\<bar>"
    using u by (intro abs_mult_pos) simp
  also have "(of_int (roundHalfEven (x / u)) - x / u) * u = of_int (roundHalfEven (x / u)) * u - x"
    using u by (simp add: left_diff_distrib)
  finally show ?thesis
    using False by (simp add: roundDouble_def Let_def u_def)
qed

lemma exponentSearch_upper:
  "0 < x \<Longrightarrow> x < 2 ^ Suc k \<Longrightarrow> exponentSearch fuel x e \<le> e + int k"
proof (induction fuel arbitrary: x e k)
  case 0
  then show ?case by simp
next
  case (Suc fuel)
  show ?case
  proof (cases "2 \<le> x")
    case True
    with Suc.prems obtain j where k: "k = Suc j" by (cases k) auto
    from Suc.prems have "x / 2 < 2 ^ Suc j" by (simp add: k)
    with Suc.IH [of "x / 2" j "e + 1"] Suc.prems True show ?thesis by (simp add: k)
  next
    case False
    show ?thesis
    proof (cases "x < 1")
      case True
      then have "x * 2 < 2 ^ Suc 0" by simp
      with Suc.IH [of "x * 2" 0 "e - 1"] Suc.prems True False show ?thesis by simp
    next
      case False
      with \<open>\<not> 2 \<le> x\<close> show ?thesis by simp
    qed
  qed
qed

lemma binaryExponent_upper: "x \<noteq> 0 \<Longrightarrow> \<bar>x\<bar> < 2 ^ Suc k \<Longrightarrow> binaryExponent x \<le> int k"
  using exponentSearch_upper [of "\<bar>x\<bar>" k 2200 0] by (simp add: binaryExponent_def)

subsection \<open>Exact subtraction of integer weights\<close>

text \<open>
  A double below \<open>2 ^ 53\<close> is an integer multiple of its spacing. Subtracting an
  integer weight from such a double that is at least as large gives a number of the
  same kind, so the subtraction is exact.
\<close>

lemma exponentSearch_below:
  "0 < x \<Longrightarrow> x < 2 ^ Suc fuel \<Longrightarrow> x < 2 powi (exponentSearch fuel x e - e + 1)"
proof (induction fuel arbitrary: x e)
  case 0
  then show ?case by simp
next
  case (Suc fuel)
  show ?case
  proof (cases "2 \<le> x")
    case True
    with Suc.prems have "0 < x / 2" "x / 2 < 2 ^ Suc fuel" by simp_all
    from Suc.IH [OF this, of "e + 1"]
    have "x / 2 < 2 powi (exponentSearch fuel (x / 2) (e + 1) - e)" by (simp add: algebra_simps)
    then have "x < 2 powi (exponentSearch fuel (x / 2) (e + 1) - e) * 2" by simp
    also have "\<dots> = 2 powi (exponentSearch fuel (x / 2) (e + 1) - e + 1)"
      by (simp add: power_int_add)
    finally show ?thesis using True by simp
  next
    case False
    show ?thesis
    proof (cases "x < 1")
      case True
      with Suc.prems have "0 < x * 2" "x * 2 < 2 ^ Suc fuel"
        by (simp_all add: less_le_trans [of "x * 2" 2])
      from Suc.IH [OF this, of "e - 1"]
      have "x * 2 < 2 powi (exponentSearch fuel (x * 2) (e - 1) - e + 1 + 1)"
        by (simp add: algebra_simps)
      also have "\<dots> = 2 powi (exponentSearch fuel (x * 2) (e - 1) - e + 1) * 2"
        by (simp add: power_int_add)
      finally show ?thesis using True False by simp
    next
      case False
      with \<open>\<not> 2 \<le> x\<close> show ?thesis by simp
    qed
  qed
qed

lemma binaryExponent_below:
  "x \<noteq> 0 \<Longrightarrow> \<bar>x\<bar> < 2 ^ 2201 \<Longrightarrow> \<bar>x\<bar> < 2 powi (binaryExponent x + 1)"
  using exponentSearch_below [of "\<bar>x\<bar>" 2200 0] by (simp add: binaryExponent_def)

lemma roundHalfEven_le: "q \<le> of_int m \<Longrightarrow> roundHalfEven q \<le> m"
proof -
  assume "q \<le> of_int m"
  moreover have "of_int (roundHalfEven q) \<le> q + 1 / 2"
    using roundHalfEven_error [of q] by linarith
  ultimately have "real_of_int (roundHalfEven q) < of_int m + 1" by linarith
  then show ?thesis by linarith
qed

lemma rounded_on_grid:
  assumes "0 \<le> x" and "x < 2 ^ 53"
  shows "\<exists>E n. - 1022 \<le> E \<and> E \<le> 52 \<and> roundDouble x = of_int n * 2 powi (E - 52)
            \<and> real_of_int n \<le> 2 ^ 53"
proof (cases "x = 0")
  case True
  have "roundDouble 0 = of_int 0 * 2 powi (0 - 52)" by (simp add: roundDouble_def)
  with True show ?thesis by (intro exI [of _ 0] exI [of _ "0::int"]) simp
next
  case False
  define E where "E = max (binaryExponent x) (- 1022)"
  define n where "n = roundHalfEven (x / 2 powi (E - 52))"
  from False assms binaryExponent_upper [of x 52] have E: "- 1022 \<le> E" "E \<le> 52"
    by (simp_all add: E_def)
  from False assms binaryExponent_below [of x] have "x < 2 powi (binaryExponent x + 1)"
    by (simp add: less_trans [of x "2 ^ 53"])
  also have "\<dots> \<le> 2 powi (E + 1)"
    by (intro power_int_increasing) (simp_all add: E_def)
  also have "\<dots> = 2 powi (53 + (E - 52))"
    by (rule arg_cong [where f = "\<lambda>z. 2 powi z"]) simp
  also have "\<dots> = 2 powi 53 * 2 powi (E - 52)"
    by (rule power_int_add) simp
  also have "\<dots> = 2 ^ 53 * 2 powi (E - 52)"
    by simp
  finally have "x / 2 powi (E - 52) \<le> real_of_int (2 ^ 53)"
    by (simp add: pos_divide_le_eq)
  then have "n \<le> 2 ^ 53" unfolding n_def by (rule roundHalfEven_le)
  then have "real_of_int n \<le> real_of_int (2 ^ 53)" by (simp only: of_int_le_iff)
  then have "real_of_int n \<le> 2 ^ 53" by simp
  moreover have "roundDouble x = of_int n * 2 powi (E - 52)"
    using False by (simp add: roundDouble_def Let_def n_def E_def)
  ultimately show ?thesis using E by blast
qed


lemma powi_split: "(2::real) powi (e + 1) = 2 ^ 53 * 2 powi (e - 52)"
proof -
  have "(2::real) powi (e + 1) = 2 powi (53 + (e - 52))"
    by (rule arg_cong [where f = "\<lambda>z. 2 powi z"]) simp
  also have "\<dots> = 2 powi 53 * 2 powi (e - 52)"
    by (rule power_int_add) simp
  also have "\<dots> = 2 ^ 53 * 2 powi (e - 52)"
    by simp
  finally show ?thesis .
qed

lemma exact_subtraction:
  assumes E: "- 1022 \<le> E" "E \<le> 52"
    and r: "r = of_int n * 2 powi (E - 52)"
    and n: "real_of_int n \<le> 2 ^ 53"
    and w: "1 \<le> wn" "real wn \<le> r"
  shows "roundDouble (r - real wn) = r - real wn
       \<and> (\<exists>E' n'. - 1022 \<le> E' \<and> E' \<le> 52 \<and> r - real wn = of_int n' * 2 powi (E' - 52)
              \<and> real_of_int n' \<le> 2 ^ 53)"
proof (cases "r - real wn = 0")
  case True
  have "(0::real) = of_int 0 * 2 powi (0 - 52)" by simp
  then have "\<exists>E' n'. - 1022 \<le> E' \<and> E' \<le> 52 \<and> (0::real) = of_int n' * 2 powi (E' - 52)
              \<and> real_of_int n' \<le> 2 ^ 53"
    by (intro exI [of _ 0] exI [of _ "0::int"]) simp
  with True show ?thesis by (simp add: roundDouble_def)
next
  case False
  define d where "d = r - real wn"
  from False w have dpos: "0 < d" by (simp add: d_def)
  from w have w1: "1 \<le> real wn" by simp
  have "r \<le> 2 ^ 53 * 2 powi (E - 52)"
    unfolding r using n by (rule mult_right_mono) simp
  then have rle: "r \<le> 2 powi (E + 1)" by (simp only: powi_split)
  have E0: "0 \<le> E"
  proof (rule ccontr)
    assume "\<not> 0 \<le> E"
    then have "E + 1 \<le> 0" by simp
    then have "(2::real) powi (E + 1) \<le> 2 powi 0" by (intro power_int_increasing) simp_all
    with rle have "r \<le> 1" by simp
    with dpos w1 show False by (simp add: d_def)
  qed
  define k where "k = nat E"
  from E0 have k: "int k = E" by (simp add: k_def)
  have "E + 1 = int (Suc k)" using k by simp
  then have "(2::real) powi (E + 1) = 2 powi int (Suc k)" by (rule arg_cong)
  also have "\<dots> = 2 ^ Suc k" by (rule power_int_of_nat)
  finally have "r \<le> 2 ^ Suc k" using rle by simp
  with w1 have dk: "d < 2 ^ Suc k" by (simp add: d_def)
  with dpos binaryExponent_upper [of d k] k have be: "binaryExponent d \<le> E" by simp
  define e where "e = max (binaryExponent d) (- 1022)"
  from be E have e: "- 1022 \<le> e" "e \<le> E" "e \<le> 52" "binaryExponent d \<le> e"
    by (simp_all add: e_def)
  define m where "m = n * 2 ^ nat (E - e) - int wn * 2 ^ nat (52 - e)"
  have p1: "(2::real) ^ nat (E - e) = 2 powi (E - e)" using e by (simp add: power_int_def)
  have p2: "(2::real) ^ nat (52 - e) = 2 powi (52 - e)" using e by (simp add: power_int_def)
  have q1: "(2::real) powi (E - e) * 2 powi (e - 52) = 2 powi (E - 52)"
    using power_int_add [of "2::real" "E - e" "e - 52"] by simp
  have q2: "(2::real) powi (52 - e) * 2 powi (e - 52) = 1"
    using power_int_add [of "2::real" "52 - e" "e - 52"] by simp
  have "of_int m * 2 powi (e - 52)
      = of_int n * (2 powi (E - e) * 2 powi (e - 52)) - real wn * (2 powi (52 - e) * 2 powi (e - 52))"
    by (simp add: m_def p1 p2 algebra_simps)
  also have "\<dots> = d" by (simp only: q1 q2) (simp add: d_def r)
  finally have dm: "d = of_int m * 2 powi (e - 52)" by simp
  have ulp: "(0::real) < 2 powi (e - 52)" by simp
  have "d / 2 powi (e - 52) = of_int m" unfolding dm using ulp by simp
  moreover have "roundDouble d = of_int (roundHalfEven (d / 2 powi (e - 52))) * 2 powi (e - 52)"
    using dpos by (simp add: roundDouble_def Let_def e_def)
  ultimately have exact: "roundDouble d = d" using dm by simp
  have "(2::real) ^ Suc k \<le> 2 ^ 2201" using E k by (intro power_increasing) simp_all
  with dk dpos binaryExponent_below [of d] have "d < 2 powi (binaryExponent d + 1)" by simp
  also have "\<dots> \<le> 2 powi (e + 1)" using e by (intro power_int_increasing) simp_all
  finally have "d < 2 ^ 53 * 2 powi (e - 52)"
    by (simp only: powi_split)
  then have "real_of_int m * 2 powi (e - 52) < 2 ^ 53 * 2 powi (e - 52)"
    by (simp only: dm [symmetric])
  with ulp have "real_of_int m < 2 ^ 53" by (simp only: mult_less_cancel_right_pos)
  then have "real_of_int m \<le> 2 ^ 53" by simp
  with e dm have "\<exists>E' n'. - 1022 \<le> E' \<and> E' \<le> 52 \<and> d = of_int n' * 2 powi (E' - 52)
              \<and> real_of_int n' \<le> 2 ^ 53" by blast
  with exact show ?thesis by (simp only: d_def) 
qed

lemma exactRemainders_on_grid:
  assumes "- 1022 \<le> E" "E \<le> 52" "r = of_int n * 2 powi (E - 52)" "real_of_int n \<le> 2 ^ 53"
    and "\<forall>p\<in>set ms. snd p \<in> \<nat> \<and> 1 \<le> snd p"
  shows "exactRemainders ms r"
  using assms
proof (induction ms arbitrary: r E n)
  case Nil
  then show ?case by simp
next
  case (Cons p ms)
  obtain m w where p: "p = (m, w)" by (cases p)
  from Cons.prems(5) p obtain wn where wn: "w = real wn" "1 \<le> wn"
    by (auto elim!: Nats_cases)
  show ?case
  proof (cases "w \<le> r")
    case False
    then show ?thesis by (simp add: p)
  next
    case True
    from exact_subtraction [OF Cons.prems(1-4) wn(2)] True wn(1)
    obtain E' n' where ex: "roundDouble (r - w) = r - w"
      and g: "- 1022 \<le> E'" "E' \<le> 52" "r - w = of_int n' * 2 powi (E' - 52)"
        "real_of_int n' \<le> 2 ^ 53"
      by auto
    from Cons.prems(5) have "\<forall>p\<in>set ms. snd p \<in> \<nat> \<and> 1 \<le> snd p" by simp
    from Cons.IH [OF g this] ex show ?thesis by (simp add: p)
  qed
qed

lemma exactRemainders_rounded:
  assumes "0 \<le> x" "x < 2 ^ 53" "\<forall>p\<in>set ms. snd p \<in> \<nat> \<and> 1 \<le> snd p"
  shows "exactRemainders ms (roundDouble x)"
proof -
  from rounded_on_grid [OF assms(1,2)] obtain E n where
    "- 1022 \<le> E" "E \<le> 52" "roundDouble x = of_int n * 2 powi (E - 52)" "real_of_int n \<le> 2 ^ 53"
    by blast
  from exactRemainders_on_grid [OF this assms(3)] show ?thesis .
qed

lemma roundHalfEven_ge: "of_int m \<le> q \<Longrightarrow> m \<le> roundHalfEven q"
proof -
  assume "of_int m \<le> q"
  moreover have "q - 1 / 2 \<le> of_int (roundHalfEven q)"
    using roundHalfEven_error [of q] by linarith
  ultimately have "real_of_int m - 1 < of_int (roundHalfEven q)" by linarith
  then show ?thesis by linarith
qed

section \<open>Properties of the metric collector\<close>

subsection \<open>One call, and a run of calls\<close>

lemma countOf_recordRequest:
  "countOf (recordRequest mc now ep d) e = countOf mc e + (if e = ep then 1 else 0)"
  by (simp add: recordRequest_def countOf_def incrementMapValue_def Let_def)

lemma errorsOf_recordRequest:
  "errorsOf (recordRequest mc now ep d) e = errorsOf mc e + (if e = ep \<and> \<not> success d then 1 else 0)"
  by (simp add: recordRequest_def errorsOf_def incrementMapValue_def Let_def)

lemma latenciesOf_recordRequest:
  "latenciesOf (recordRequest mc now ep d) e = latenciesOf mc e @ (if e = ep then [duration d] else [])"
  by (simp add: recordRequest_def latenciesOf_def pushMapValue_def Let_def)

lemma timestampsOf_recordRequest:
  "timestampsOf (recordRequest mc now ep d) e = timestampsOf mc e @ (if e = ep then [now] else [])"
  by (simp add: recordRequest_def timestampsOf_def pushMapValue_def Let_def)

lemma rateLimitTimestamps_recordRequest:
  "rateLimitTimestamps (recordRequest mc now ep d) = rateLimitTimestamps mc @ (if rateLimited d then [now] else [])"
  by (simp add: recordRequest_def Let_def)

lemma requestCounts_recordRequest:
  "requestCounts (recordRequest mc now ep d) e = (if e = ep then Some (countOf mc e + 1) else requestCounts mc e)"
  by (simp add: recordRequest_def countOf_def incrementMapValue_def Let_def)

lemma latencies_recordRequest:
  "latencies (recordRequest mc now ep d) e = (if e = ep then Some (latenciesOf mc e @ [duration d]) else latencies mc e)"
  by (simp add: recordRequest_def latenciesOf_def pushMapValue_def Let_def)

lemma countOf_recordAll:
  "countOf (recordAll mc cs) e = countOf mc e + length (filter (\<lambda>c. callEndpoint c = e) cs)"
  by (induction cs arbitrary: mc) (auto simp: countOf_recordRequest)

lemma errorsOf_recordAll:
  "errorsOf (recordAll mc cs) e =
     errorsOf mc e + length (filter (\<lambda>c. callEndpoint c = e \<and> \<not> success (callData c)) cs)"
  by (induction cs arbitrary: mc) (auto simp: errorsOf_recordRequest)

lemma latenciesOf_recordAll:
  "latenciesOf (recordAll mc cs) e =
     latenciesOf mc e @ map (\<lambda>c. duration (callData c)) (filter (\<lambda>c. callEndpoint c = e) cs)"
  by (induction cs arbitrary: mc) (auto simp: latenciesOf_recordRequest)

lemma timestampsOf_recordAll:
  "timestampsOf (recordAll mc cs) e =
     timestampsOf mc e @ map callTime (filter (\<lambda>c. callEndpoint c = e) cs)"
  by (induction cs arbitrary: mc) (auto simp: timestampsOf_recordRequest)

lemma requestCounts_recordAll:
  "requestCounts (recordAll mc cs) e =
     (if filter (\<lambda>c. callEndpoint c = e) cs = [] then requestCounts mc e
      else Some (countOf mc e + length (filter (\<lambda>c. callEndpoint c = e) cs)))"
proof (induction cs arbitrary: mc)
  case Nil
  show ?case by simp
next
  case (Cons c cs)
  show ?case
    by (simp add: Cons.IH requestCounts_recordRequest countOf_recordRequest countOf_def)
qed

lemma latencies_recordAll:
  "latencies (recordAll mc cs) e =
     (if filter (\<lambda>c. callEndpoint c = e) cs = [] then latencies mc e
      else Some (latenciesOf mc e @
                 map (\<lambda>c. duration (callData c)) (filter (\<lambda>c. callEndpoint c = e) cs)))"
proof (induction cs arbitrary: mc)
  case Nil
  show ?case by simp
next
  case (Cons c cs)
  show ?case
    by (simp add: Cons.IH latencies_recordRequest latenciesOf_recordRequest latenciesOf_def)
qed

lemma foldl_plus_sum_list: "foldl (\<lambda>a b. a + b) (a::int) ls = a + sum_list ls"
  by (induction ls arbitrary: a) auto

lemma mset_events_filter:
  "mset (map eventOf (filter (\<lambda>c. P (eventOf c)) cs)) = filter_mset P (mset (map eventOf cs))"
  by (induction cs) auto

lemma events_length_filter:
  assumes "mset (map eventOf cs) = mset (map eventOf cs')"
  shows "length (filter (\<lambda>c. P (eventOf c)) cs) = length (filter (\<lambda>c. P (eventOf c)) cs')"
proof -
  have "size (mset (map eventOf (filter (\<lambda>c. P (eventOf c)) cs)))
      = size (mset (map eventOf (filter (\<lambda>c. P (eventOf c)) cs')))"
    unfolding mset_events_filter assms ..
  then have "length (map eventOf (filter (\<lambda>c. P (eventOf c)) cs))
           = length (map eventOf (filter (\<lambda>c. P (eventOf c)) cs'))"
    by (simp only: size_mset)
  then show ?thesis by (simp only: length_map)
qed

lemma events_sum_filter:
  assumes "mset (map eventOf cs) = mset (map eventOf cs')"
  shows "sum_list (map (\<lambda>c. f (eventOf c)) (filter (\<lambda>c. P (eventOf c)) cs))
       = sum_list (map (\<lambda>c. (f (eventOf c) :: int)) (filter (\<lambda>c. P (eventOf c)) cs'))"
proof -
  have "sum_mset (image_mset f (mset (map eventOf (filter (\<lambda>c. P (eventOf c)) cs))))
      = sum_mset (image_mset f (mset (map eventOf (filter (\<lambda>c. P (eventOf c)) cs'))))"
    unfolding mset_events_filter assms ..
  then have "sum_mset (mset (map f (map eventOf (filter (\<lambda>c. P (eventOf c)) cs))))
           = sum_mset (mset (map f (map eventOf (filter (\<lambda>c. P (eventOf c)) cs'))))"
    by (simp only: mset_map)
  then have "sum_list (map f (map eventOf (filter (\<lambda>c. P (eventOf c)) cs)))
           = sum_list (map f (map eventOf (filter (\<lambda>c. P (eventOf c)) cs')))"
    by (simp only: sum_mset_sum_list)
  then show ?thesis by (simp only: map_map comp_def)
qed

lemma count_calls_perm:
  assumes "mset (map eventOf cs) = mset (map eventOf cs')"
  shows "length (filter (\<lambda>c. callEndpoint c = e) cs) = length (filter (\<lambda>c. callEndpoint c = e) cs')"
  using events_length_filter [OF assms, of "\<lambda>ev. fst ev = e"] by (simp add: eventOf_def)

lemma count_errors_perm:
  assumes "mset (map eventOf cs) = mset (map eventOf cs')"
  shows "length (filter (\<lambda>c. callEndpoint c = e \<and> \<not> success (callData c)) cs)
       = length (filter (\<lambda>c. callEndpoint c = e \<and> \<not> success (callData c)) cs')"
  using events_length_filter [OF assms, of "\<lambda>ev. fst ev = e \<and> \<not> snd (snd ev)"]
  by (simp add: eventOf_def)

lemma sum_durations_perm:
  assumes "mset (map eventOf cs) = mset (map eventOf cs')"
  shows "sum_list (map (\<lambda>c. duration (callData c)) (filter (\<lambda>c. callEndpoint c = e) cs))
       = sum_list (map (\<lambda>c. duration (callData c)) (filter (\<lambda>c. callEndpoint c = e) cs'))"
  using events_sum_filter [OF assms, of "\<lambda>ev. fst (snd ev)" "\<lambda>ev. fst ev = e"]
  by (simp add: eventOf_def)

lemma countOf_new [simp]: "countOf (newMetricCollector t) e = 0"
  by (simp add: newMetricCollector_def countOf_def)

lemma errorsOf_new [simp]: "errorsOf (newMetricCollector t) e = 0"
  by (simp add: newMetricCollector_def errorsOf_def)

lemma latenciesOf_new [simp]: "latenciesOf (newMetricCollector t) e = []"
  by (simp add: newMetricCollector_def latenciesOf_def)

lemma timestampsOf_new [simp]: "timestampsOf (newMetricCollector t) e = []"
  by (simp add: newMetricCollector_def timestampsOf_def)

lemma requestCounts_run:
  "requestCounts (recordAll (newMetricCollector t) cs) e =
     (if length (filter (\<lambda>c. callEndpoint c = e) cs) = 0 then None
      else Some (length (filter (\<lambda>c. callEndpoint c = e) cs)))"
  by (simp add: requestCounts_recordAll) (simp add: newMetricCollector_def)

lemma latencies_run:
  "latencies (recordAll (newMetricCollector t) cs) e =
     (if length (filter (\<lambda>c. callEndpoint c = e) cs) = 0 then None
      else Some (map (\<lambda>c. duration (callData c)) (filter (\<lambda>c. callEndpoint c = e) cs)))"
  by (simp add: latencies_recordAll) (simp add: newMetricCollector_def)

lemma calculateErrorRates_run:
  "calculateErrorRates (recordAll (newMetricCollector t) cs) e =
     (if length (filter (\<lambda>c. callEndpoint c = e) cs) = 0 then None
      else Some (toFixed
        (roundDouble (roundDouble
           (real (length (filter (\<lambda>c. callEndpoint c = e \<and> \<not> success (callData c)) cs))
            / real (length (filter (\<lambda>c. callEndpoint c = e) cs))) * 100)) 2))"
proof -
  have e: "(case errors (recordAll (newMetricCollector t) cs) e of None \<Rightarrow> 0 | Some n \<Rightarrow> n)
         = length (filter (\<lambda>c. callEndpoint c = e \<and> \<not> success (callData c)) cs)"
    using errorsOf_recordAll [of "newMetricCollector t" cs e] errorsOf_new [of t e]
    by (simp add: errorsOf_def)
  show ?thesis
    unfolding calculateErrorRates_def requestCounts_run e by (simp add: Let_def)
qed

lemma calculateAverageLatencies_run:
  "calculateAverageLatencies (recordAll (newMetricCollector t) cs) e =
     (if length (filter (\<lambda>c. callEndpoint c = e) cs) = 0 then None
      else Some (mathRound (roundDouble
        (real_of_int (sum_list (map (\<lambda>c. duration (callData c)) (filter (\<lambda>c. callEndpoint c = e) cs)))
         / real (length (filter (\<lambda>c. callEndpoint c = e) cs))))))"
  unfolding calculateAverageLatencies_def latencies_run
  by (simp add: Let_def foldl_plus_sum_list)


subsection \<open>Order independence\<close>

text \<open>
  Claim C6. Recording the same multiset of \<open>(endpoint, duration, success)\<close> events
  in any order, from a fresh collector, gives for every endpoint the same request
  count, the same error rate and the same average latency. The clock readings and
  the rate-limit flags of the two runs may differ.
\<close>

theorem aggregation_order_independent:
  assumes "mset (map eventOf cs) = mset (map eventOf cs')"
  shows "requestCounts (recordAll (newMetricCollector t) cs) e
           = requestCounts (recordAll (newMetricCollector t') cs') e
       \<and> calculateErrorRates (recordAll (newMetricCollector t) cs) e
           = calculateErrorRates (recordAll (newMetricCollector t') cs') e
       \<and> calculateAverageLatencies (recordAll (newMetricCollector t) cs) e
           = calculateAverageLatencies (recordAll (newMetricCollector t') cs') e"
  unfolding requestCounts_run calculateErrorRates_run calculateAverageLatencies_run
    count_calls_perm [OF assms, of e] count_errors_perm [OF assms, of e]
    sum_durations_perm [OF assms, of e]
  by simp

theorem aggregation_order_independent_witness:
  "mset (map eventOf [sampleSuccess, sampleFailure]) = mset (map eventOf [sampleFailure, sampleSuccess])
   \<and> requestCounts (recordAll (newMetricCollector 0) [sampleSuccess, sampleFailure]) ''eth_call''
       = requestCounts (recordAll (newMetricCollector 7) [sampleFailure, sampleSuccess]) ''eth_call''
   \<and> calculateErrorRates (recordAll (newMetricCollector 0) [sampleSuccess, sampleFailure]) ''eth_call''
       = calculateErrorRates (recordAll (newMetricCollector 7) [sampleFailure, sampleSuccess]) ''eth_call''
   \<and> calculateAverageLatencies (recordAll (newMetricCollector 0) [sampleSuccess, sampleFailure]) ''eth_call''
       = calculateAverageLatencies (recordAll (newMetricCollector 7) [sampleFailure, sampleSuccess]) ''eth_call''"
proof -
  have h: "mset (map eventOf [sampleSuccess, sampleFailure])
         = mset (map eventOf [sampleFailure, sampleSuccess])"
    by (simp add: eventOf_def sampleSuccess_def sampleFailure_def)
  from aggregation_order_independent [OF h, of 0 "''eth_call''" 7] h show ?thesis
    by blast
qed


subsection \<open>Errors never exceed requests\<close>



lemma takeSnapshot_counts:
  "requestCounts (snd (takeSnapshot mc now)) = requestCounts mc"
  "errors (snd (takeSnapshot mc now)) = errors mc"
  "latencies (snd (takeSnapshot mc now)) = latencies mc"
  "rateLimitTimestamps (snd (takeSnapshot mc now)) = rateLimitTimestamps mc"
  by (simp_all add: takeSnapshot_def Let_def)




lemma roundDouble_half: "roundDouble (1 / 2) = 1 / 2"
  by (simp add: roundDouble_def binaryExponent_def roundHalfEven_def Let_def)



text \<open>
  For 23 failures among 160 requests the double \<open>23 / 160 * 100\<close> is
  \<open>14.374999999999998\<close> and the reported rate is \<open>14.37\<close>.
\<close>

lemma reported_rate_23_of_160:
  "calculateErrorRates
     (recordAll (newMetricCollector 0) (replicate 23 sampleFailure @ replicate 137 sampleSuccess))
     ''eth_call'' = Some (1437 / 100)"
proof -
  have r: "roundDouble (roundDouble (23 / 160) * 100) = 8092405580431359 / 2 ^ 49"
    by (simp add: roundDouble_def binaryExponent_def roundHalfEven_def Let_def)
  show ?thesis
    unfolding calculateErrorRates_run
    by (simp add: sampleSuccess_def sampleFailure_def toFixed_def r)
qed

subsection \<open>One latency and one timestamp for each call\<close>

text \<open>
  Claim C10. Every call of \<^verbatim>\<open>recordRequest\<close> appends exactly one duration to the
  latency list of its endpoint and exactly one timestamp to its timestamp list,
  whatever the \<^verbatim>\<open>success\<close> flag says, and leaves the lists of the other endpoints
  alone. Hence after every run from a fresh collector the request count of an
  endpoint is the length of its latency list and of its timestamp list, the latency
  list holds the durations of all calls for the endpoint, failed ones included, and
  the average latency is the rounded mean of all of them.
\<close>

theorem recordRequest_appends_latency_and_timestamp:
  "latenciesOf (recordRequest mc now ep d) e = latenciesOf mc e @ (if e = ep then [duration d] else [])
   \<and> timestampsOf (recordRequest mc now ep d) e = timestampsOf mc e @ (if e = ep then [now] else [])
   \<and> countOf (recordAll (newMetricCollector t) cs) e
       = length (latenciesOf (recordAll (newMetricCollector t) cs) e)
   \<and> countOf (recordAll (newMetricCollector t) cs) e
       = length (timestampsOf (recordAll (newMetricCollector t) cs) e)
   \<and> latenciesOf (recordAll (newMetricCollector t) cs) e
       = map (\<lambda>c. duration (callData c)) (filter (\<lambda>c. callEndpoint c = e) cs)
   \<and> calculateAverageLatencies (recordAll (newMetricCollector t) cs) e
       = (if filter (\<lambda>c. callEndpoint c = e) cs = [] then None
          else Some (mathRound (roundDouble
            (real_of_int (sum_list (map (\<lambda>c. duration (callData c)) (filter (\<lambda>c. callEndpoint c = e) cs)))
             / real (length (filter (\<lambda>c. callEndpoint c = e) cs))))))"
  by (simp add: latenciesOf_recordRequest timestampsOf_recordRequest countOf_recordAll
      latenciesOf_recordAll timestampsOf_recordAll calculateAverageLatencies_run)


text \<open>A failed request of 8 ms and a successful one of 5 ms average to 7 ms.\<close>

lemma failed_duration_in_average:
  "calculateAverageLatencies (recordAll (newMetricCollector 0) [sampleSuccess, sampleFailure]) ''eth_call''
     = Some 7"
proof -
  have r: "roundDouble (13 / 2) = 13 / 2"
    by (simp add: roundDouble_def binaryExponent_def roundHalfEven_def Let_def)
  show ?thesis
    unfolding calculateAverageLatencies_run
    by (simp add: sampleSuccess_def sampleFailure_def mathRound_def r)
qed

section \<open>Properties of weighted selection\<close>

lemma constantRandom_apply: "constantRandom u n = u"
  by (simp add: constantRandom_def)

lemma foldl_weights:
  "foldl (\<lambda>sum (_, weight). roundDouble (sum + weight)) a ms
     = foldl (\<lambda>a b. roundDouble (a + b)) a (map snd ms)"
  by (induction ms arbitrary: a) (simp_all add: case_prod_unfold)

lemma totalWeight_methods: "totalWeight methods = 100"
  by (simp add: methods_def totalWeight_def roundDouble_def binaryExponent_def
      roundHalfEven_def Let_def)

lemma totalWeight_weights: "totalWeight weights = 100"
  by (simp add: weights_def totalWeight_def roundDouble_def binaryExponent_def
      roundHalfEven_def Let_def)

lemma cumulative_Cons: "cumulative ((m, w) # rest) (Suc k) = w + cumulative rest k"
  by (simp add: cumulative_def)

lemma cumulative_0: "cumulative ms 0 = 0"
  by (simp add: cumulative_def)

lemma selectMethod_first_exceeding:
  "0 \<le> r \<Longrightarrow> r < sum_list (map snd ms) \<Longrightarrow> exactRemainders ms r \<Longrightarrow>
     \<exists>k. strictlyExceedsAt ms r k \<and> selectMethod ms r = Some (fst (ms ! k))"
proof (induction ms arbitrary: r)
  case Nil
  then show ?case by simp
next
  case (Cons p rest)
  obtain m w where p: "p = (m, w)" by (cases p)
  show ?case
  proof (cases "r < w")
    case True
    then have "strictlyExceedsAt (p # rest) r 0"
      by (simp add: strictlyExceedsAt_def p cumulative_Cons cumulative_0)
    with True show ?thesis by (auto simp: p)
  next
    case False
    with Cons.prems have e: "roundDouble (r - w) = r - w" "exactRemainders rest (r - w)"
      and "0 \<le> r - w" "r - w < sum_list (map snd rest)"
      by (simp_all add: p)
    from Cons.IH [OF this(3,4,2)] obtain k where
      k: "strictlyExceedsAt rest (r - w) k" "selectMethod rest (r - w) = Some (fst (rest ! k))"
      by blast
    have "strictlyExceedsAt (p # rest) r (Suc k)"
      unfolding strictlyExceedsAt_def p
    proof (intro conjI allI impI)
      show "Suc k < length ((m, w) # rest)"
        using k(1) by (simp add: strictlyExceedsAt_def)
      show "r < cumulative ((m, w) # rest) (Suc (Suc k))"
        using k(1) by (simp add: strictlyExceedsAt_def cumulative_Cons)
      fix j assume "j < Suc k"
      show "cumulative ((m, w) # rest) (Suc j) \<le> r"
      proof (cases j)
        case 0
        with False show ?thesis by (simp add: cumulative_Cons cumulative_0)
      next
        case (Suc j')
        with \<open>j < Suc k\<close> k(1) have "cumulative rest (Suc j') \<le> r - w"
          by (simp add: strictlyExceedsAt_def)
        then show ?thesis by (simp add: Suc cumulative_Cons)
      qed
    qed
    with False k(2) e(1) show ?thesis by (auto simp: p)
  qed
qed

lemma selectMethod_beyond_total:
  "sum_list (map snd ms) \<le> r \<Longrightarrow> (\<forall>p\<in>set ms. 0 \<le> snd p) \<Longrightarrow> exactRemainders ms r \<Longrightarrow>
     selectMethod ms r = None"
proof (induction ms arbitrary: r)
  case Nil
  then show ?case by simp
next
  case (Cons p rest)
  obtain m w where p: "p = (m, w)" by (cases p)
  from Cons.prems have "0 \<le> sum_list (map snd rest)"
    by (intro sum_list_nonneg) auto
  with Cons.prems have w: "w \<le> r" by (simp add: p)
  with Cons.prems have "roundDouble (r - w) = r - w" "exactRemainders rest (r - w)"
    "sum_list (map snd rest) \<le> r - w" "\<forall>p\<in>set rest. 0 \<le> snd p"
    by (simp_all add: p)
  with Cons.IH [of "r - w"] w show ?case by (simp add: p)
qed

lemma weightedLoop_first_nonpositive:
  "r \<le> sum_list (map snd ms) \<Longrightarrow> ms \<noteq> [] \<or> 0 < r \<Longrightarrow> exactRemainders ms r \<Longrightarrow>
     \<exists>k. nonPositiveAt ms r k \<and> weightedLoop ms r = fst (ms ! k)"
proof (induction ms arbitrary: r)
  case Nil
  then show ?case by simp
next
  case (Cons p rest)
  obtain m w where p: "p = (m, w)" by (cases p)
  show ?case
  proof (cases "r - w \<le> 0")
    case True
    then have "nonPositiveAt (p # rest) r 0"
      by (simp add: nonPositiveAt_def p cumulative_Cons cumulative_0)
    moreover from True have "roundDouble (r - w) \<le> 0" by (rule roundDouble_nonpos)
    ultimately show ?thesis by (auto simp: p Let_def)
  next
    case False
    with Cons.prems have e: "roundDouble (r - w) = r - w" "exactRemainders rest (r - w)"
      and "r - w \<le> sum_list (map snd rest)" "rest \<noteq> [] \<or> 0 < r - w"
      by (simp_all add: p)
    from Cons.IH [OF this(3,4,2)] obtain k where
      k: "nonPositiveAt rest (r - w) k" "weightedLoop rest (r - w) = fst (rest ! k)"
      by blast
    have "nonPositiveAt (p # rest) r (Suc k)"
      unfolding nonPositiveAt_def p
    proof (intro conjI allI impI)
      show "Suc k < length ((m, w) # rest)"
        using k(1) by (simp add: nonPositiveAt_def)
      show "r - cumulative ((m, w) # rest) (Suc (Suc k)) \<le> 0"
        using k(1) by (simp add: nonPositiveAt_def cumulative_Cons)
      fix j assume "j < Suc k"
      show "0 < r - cumulative ((m, w) # rest) (Suc j)"
      proof (cases j)
        case 0
        with False show ?thesis by (simp add: cumulative_Cons cumulative_0)
      next
        case (Suc j')
        with \<open>j < Suc k\<close> k(1) have "0 < r - w - cumulative rest (Suc j')"
          by (simp add: nonPositiveAt_def)
        then show ?thesis by (simp add: Suc cumulative_Cons)
      qed
    qed
    with False k(2) e(1) show ?thesis by (auto simp: p Let_def)
  qed
qed

lemma loops_agree_off_boundaries:
  "0 \<le> r \<Longrightarrow> r < sum_list (map snd ms) \<Longrightarrow> exactRemainders ms r \<Longrightarrow>
     \<forall>k\<le>length ms. r \<noteq> cumulative ms k \<Longrightarrow>
     selectMethod ms r = Some (weightedLoop ms r)"
proof (induction ms arbitrary: r)
  case Nil
  then show ?case by simp
next
  case (Cons p rest)
  obtain m w where p: "p = (m, w)" by (cases p)
  from Cons.prems(4) have "r \<noteq> cumulative (p # rest) (Suc 0)" by auto
  then have rw: "r \<noteq> w" by (simp add: p cumulative_Cons cumulative_0)
  show ?case
  proof (cases "r < w")
    case True
    then have "roundDouble (r - w) \<le> 0" by (intro roundDouble_nonpos) simp
    with True show ?thesis by (simp add: p Let_def)
  next
    case False
    with Cons.prems have e: "roundDouble (r - w) = r - w" "exactRemainders rest (r - w)"
      and a: "0 \<le> r - w" "r - w < sum_list (map snd rest)"
      by (simp_all add: p)
    have b: "\<forall>k\<le>length rest. r - w \<noteq> cumulative rest k"
    proof (intro allI impI)
      fix k assume "k \<le> length rest"
      then have "Suc k \<le> length (p # rest)" by simp
      with Cons.prems(4) have "r \<noteq> cumulative (p # rest) (Suc k)" by blast
      then show "r - w \<noteq> cumulative rest k" by (auto simp: p cumulative_Cons)
    qed
    from Cons.IH [OF a e(2) b] False rw e(1) show ?thesis by (simp add: p Let_def)
  qed
qed

lemma strictlyExceedsAt_unique:
  "strictlyExceedsAt ms r k \<Longrightarrow> strictlyExceedsAt ms r k' \<Longrightarrow> k = k'"
  unfolding strictlyExceedsAt_def by (metis linorder_neqE_nat not_less)

lemma nonPositiveAt_unique:
  "nonPositiveAt ms r k \<Longrightarrow> nonPositiveAt ms r k' \<Longrightarrow> k = k'"
  unfolding nonPositiveAt_def by (metis linorder_neqE_nat not_less)

lemma cumulative_Suc:
  "k < length ms \<Longrightarrow> cumulative ms (Suc k) = cumulative ms k + snd (ms ! k)"
  by (simp add: cumulative_def take_Suc_conv_app_nth)

lemma cumulative_mono:
  assumes "\<forall>p\<in>set ms. 0 < snd p" and "j \<le> k" and "k \<le> length ms"
  shows "cumulative ms j \<le> cumulative ms k"
  using assms(2,3)
proof (induction k)
  case 0
  then show ?case by simp
next
  case (Suc k)
  show ?case
  proof (cases "j = Suc k")
    case True
    then show ?thesis by simp
  next
    case False
    with Suc.prems have "j \<le> k" "k < length ms" by simp_all
    moreover from this assms(1) have "0 < snd (ms ! k)" by simp
    ultimately show ?thesis using Suc.IH by (simp add: cumulative_Suc)
  qed
qed

lemma at_boundary:
  assumes pos: "\<forall>p\<in>set ms. 0 < snd p" and k: "Suc k < length ms"
  shows "strictlyExceedsAt ms (cumulative ms (Suc k)) (Suc k)
       \<and> nonPositiveAt ms (cumulative ms (Suc k)) k"
proof -
  from pos k have "0 < snd (ms ! Suc k)" "0 < snd (ms ! k)" by simp_all
  with k have up: "cumulative ms (Suc k) < cumulative ms (Suc (Suc k))"
    and down: "cumulative ms k < cumulative ms (Suc k)"
    by (simp_all add: cumulative_Suc)
  have "\<forall>j<Suc k. cumulative ms (Suc j) \<le> cumulative ms (Suc k)"
    using k by (auto intro!: cumulative_mono [OF pos])
  moreover have "\<forall>j<k. cumulative ms (Suc j) < cumulative ms (Suc k)"
  proof (intro allI impI)
    fix j assume "j < k"
    with k have "cumulative ms (Suc j) \<le> cumulative ms k"
      by (intro cumulative_mono [OF pos]) simp_all
    with down show "cumulative ms (Suc j) < cumulative ms (Suc k)" by simp
  qed
  ultimately show ?thesis
    using k up by (simp add: strictlyExceedsAt_def nonPositiveAt_def)
qed


lemma sequenceLoop_unfold:
  "i \<le> n \<Longrightarrow>
     sequenceLoop rand ms tw n i (sequence, drawn) =
       (sequence @ concat (map (\<lambda>j. pushed ms (roundDouble (rand (drawn + j) * tw))) [0..<n - i]),
        drawn + (n - i))"
proof (induction "n - i" arbitrary: i sequence drawn)
  case 0
  then show ?case by (simp add: sequenceLoop.simps)
next
  case (Suc k)
  then have lt: "i < n" and k: "k = n - (i + 1)" and le: "i + 1 \<le> n" by simp_all
  have upt: "[0..<n - i] = 0 # map Suc [0..<k]"
    using Suc.hyps(2) by (simp add: upt_conv_Cons map_Suc_upt del: upt_Suc)
  have "sequenceLoop rand ms tw n i (sequence, drawn) =
          sequenceLoop rand ms tw n (i + 1)
            (sequence @ pushed ms (roundDouble (rand drawn * tw)), drawn + 1)"
    using lt by (subst sequenceLoop.simps) (simp add: pushed_def Let_def split: option.split)
  also have "\<dots> = ((sequence @ pushed ms (roundDouble (rand drawn * tw)))
                     @ concat (map (\<lambda>j. pushed ms (roundDouble (rand (drawn + 1 + j) * tw)))
                                 [0..<n - (i + 1)]),
                   drawn + 1 + (n - (i + 1)))"
    by (rule Suc.hyps(1) [OF k le])
  also have "\<dots> = (sequence @ concat (map (\<lambda>j. pushed ms (roundDouble (rand (drawn + j) * tw)))
                                       [0..<n - i]),
                   drawn + (n - i))"
  proof -
    have "n - (i + 1) = k" "drawn + 1 + k = drawn + (n - i)"
      using Suc.hyps(2) by simp_all
    then show ?thesis by (simp add: upt comp_def)
  qed
  finally show ?case .
qed

lemma generateRequestSequence_draws:
  "generateRequestSequence rand drawn ms n =
     (concat (map (\<lambda>j. pushed ms (roundDouble (rand (drawn + j) * totalWeight ms))) [0..<n]),
      drawn + n)"
  by (simp add: generateRequestSequence_def sequenceLoop_unfold)

lemma generateWeightedRequest_draw:
  "generateWeightedRequest rand drawn ws =
     (weightedLoop ws (roundDouble (rand drawn * totalWeight ws)), drawn + 1)"
  by (simp add: generateWeightedRequest_def Let_def totalWeight_def foldl_weights)

text \<open>
  Claim C1, as the code has it. Let \<open>r\<close> be the draw, the double
  \<^verbatim>\<open>Math.random() * totalWeight\<close>, with \<open>0 \<le> r\<close> and \<open>r\<close> below the sum of the
  weights, over any ordered weight table for which the subtractions of the loops
  are exact, as they are for every table of positive integer weights
  (\<open>exactRemainders_rounded\<close>). \<^verbatim>\<open>generateRequestSequence\<close> pushes the method
  whose cumulative weight is the first to exceed \<open>r\<close> strictly. \<^verbatim>\<open>generateWeightedRequest\<close> returns the
  method at which the remainder \<open>r - cumulative\<close> first becomes non-positive, that
  is, whose cumulative weight is the first to reach \<open>r\<close>. The two loops select the
  same method whenever \<open>r\<close> is not equal to a cumulative weight. When all weights
  are positive and \<open>r\<close> is the cumulative weight of the entries up to \<open>k\<close>, not the
  last one, \<^verbatim>\<open>generateWeightedRequest\<close> returns the entry \<open>k\<close> and
  \<^verbatim>\<open>generateRequestSequence\<close> pushes the entry after it.
\<close>

theorem weighted_selection:
  assumes "roundDouble (rand drawn * totalWeight ms) = r"
    and "0 \<le> r" and "r < cumulative ms (length ms)" and "exactRemainders ms r"
  shows "(\<exists>k. strictlyExceedsAt ms r k
            \<and> generateRequestSequence rand drawn ms 1 = ([fst (ms ! k)], drawn + 1))
       \<and> (\<exists>k. nonPositiveAt ms r k
            \<and> generateWeightedRequest rand drawn ms = (fst (ms ! k), drawn + 1))
       \<and> ((\<forall>k\<le>length ms. r \<noteq> cumulative ms k) \<longrightarrow>
            fst (generateRequestSequence rand drawn ms 1) = [fst (generateWeightedRequest rand drawn ms)])
       \<and> ((\<forall>p\<in>set ms. 0 < snd p) \<longrightarrow>
            (\<forall>k. Suc k < length ms \<and> r = cumulative ms (Suc k) \<longrightarrow>
               generateWeightedRequest rand drawn ms = (fst (ms ! k), drawn + 1)
             \<and> generateRequestSequence rand drawn ms 1 = ([fst (ms ! Suc k)], drawn + 1)))"
proof -
  have g: "generateRequestSequence rand drawn ms 1 = (pushed ms r, drawn + 1)"
    by (simp add: generateRequestSequence_draws assms(1))
  have w: "generateWeightedRequest rand drawn ms = (weightedLoop ms r, drawn + 1)"
    by (simp add: generateWeightedRequest_draw assms(1))
  from assms(3) have r: "r < sum_list (map snd ms)" by (simp add: cumulative_def)
  with assms(2) have "ms \<noteq> []" by auto
  with r assms(4) have nonpos: "\<exists>k. nonPositiveAt ms r k \<and> weightedLoop ms r = fst (ms ! k)"
    by (intro weightedLoop_first_nonpositive) auto
  from selectMethod_first_exceeding [OF assms(2) r assms(4)]
  have exceeds: "\<exists>k. strictlyExceedsAt ms r k \<and> pushed ms r = [fst (ms ! k)]"
    by (auto simp: pushed_def)
  from loops_agree_off_boundaries [OF assms(2) r assms(4)]
  have agree: "(\<forall>k\<le>length ms. r \<noteq> cumulative ms k) \<longrightarrow> pushed ms r = [weightedLoop ms r]"
    by (auto simp: pushed_def)
  have boundary: "(\<forall>p\<in>set ms. 0 < snd p) \<longrightarrow>
      (\<forall>k. Suc k < length ms \<and> r = cumulative ms (Suc k) \<longrightarrow>
         weightedLoop ms r = fst (ms ! k) \<and> pushed ms r = [fst (ms ! Suc k)])"
  proof (intro impI allI, elim conjE)
    fix k
    assume pos: "\<forall>p\<in>set ms. 0 < snd p" and k: "Suc k < length ms" "r = cumulative ms (Suc k)"
    from at_boundary [OF pos k(1)] k(2)
    have a: "strictlyExceedsAt ms r (Suc k)" "nonPositiveAt ms r k" by simp_all
    from exceeds obtain i where i: "strictlyExceedsAt ms r i" "pushed ms r = [fst (ms ! i)]"
      by blast
    from nonpos obtain j where j: "nonPositiveAt ms r j" "weightedLoop ms r = fst (ms ! j)"
      by blast
    from strictlyExceedsAt_unique [OF i(1) a(1)] nonPositiveAt_unique [OF j(1) a(2)] i(2) j(2)
    show "weightedLoop ms r = fst (ms ! k) \<and> pushed ms r = [fst (ms ! Suc k)]" by simp
  qed
  from nonpos exceeds agree boundary show ?thesis unfolding g w by simp
qed

lemma roundDouble_25: "roundDouble 25 = 25"
  by (simp add: roundDouble_def binaryExponent_def roundHalfEven_def Let_def)

lemma roundDouble_10: "roundDouble 10 = 10"
  by (simp add: roundDouble_def binaryExponent_def roundHalfEven_def Let_def)

theorem weighted_selection_witness:
  "roundDouble (constantRandom (1 / 4) 0 * totalWeight methods) = 25
   \<and> (0::real) \<le> 25 \<and> 25 < cumulative methods (length methods) \<and> exactRemainders methods 25
   \<and> strictlyExceedsAt methods 25 1 \<and> nonPositiveAt methods 25 1
   \<and> generateRequestSequence (constantRandom (1 / 4)) 0 methods 1 = ([''eth_getlogs''], 1)
   \<and> generateWeightedRequest (constantRandom (1 / 4)) 0 methods = (''eth_getlogs'', 1)"
proof -
  have h: "roundDouble (constantRandom (1 / 4) 0 * totalWeight methods) = 25"
    "(0::real) \<le> 25" "25 < cumulative methods (length methods)" "exactRemainders methods 25"
    by (simp_all add: totalWeight_methods constantRandom_apply roundDouble_25)
       (simp_all add: methods_def cumulative_def roundDouble_10)
  have s: "strictlyExceedsAt methods 25 1" "nonPositiveAt methods 25 1"
    by (simp_all add: methods_def strictlyExceedsAt_def nonPositiveAt_def cumulative_def)
  have "generateRequestSequence (constantRandom (1 / 4)) 0 methods 1 = ([''eth_getlogs''], 1)"
    by (simp add: generateRequestSequence_draws pushed_def totalWeight_methods
        constantRandom_apply roundDouble_25)
       (simp add: methods_def roundDouble_10)
  moreover have "generateWeightedRequest (constantRandom (1 / 4)) 0 methods = (''eth_getlogs'', 1)"
  proof -
    have "roundDouble (- 2) = - 2"
      by (simp add: roundDouble_def binaryExponent_def roundHalfEven_def Let_def)
    then show ?thesis
      by (simp add: generateWeightedRequest_draw totalWeight_methods constantRandom_apply
          roundDouble_25)
         (simp add: methods_def roundDouble_10 Let_def)
  qed
  ultimately show ?thesis
    using weighted_selection [of "constantRandom (1 / 4)" 0 methods 25] h s by blast
qed


text \<open>
  At a draw equal to a cumulative weight the two rules part, and each loop follows
  its own. \<^verbatim>\<open>Math.random\<close> can return the double \<open>0.48\<close>, and \<^verbatim>\<open>0.48 * 100\<close> is the
  double \<open>48\<close>: on \<^verbatim>\<open>requestWeights.methods\<close> the remainder is non-positive at
  \<^verbatim>\<open>eth_call\<close>, the fourth entry, and \<^verbatim>\<open>generateRequestSequence\<close> pushes the fifth.
  For the double \<open>0.3\<close>, \<^verbatim>\<open>0.3 * 100\<close> is the double \<open>30\<close>: on
  \<^verbatim>\<open>LoadTester.weights\<close> the cumulative weight first exceeds the draw at the second
  entry, and \<^verbatim>\<open>generateWeightedRequest\<close> returns the first.
\<close>

theorem weighted_selection_boundary_counterexample:
  "roundDouble (constantRandom double048 0 * totalWeight methods) = 48
   \<and> (48::real) < cumulative methods (length methods) \<and> exactRemainders methods 48
   \<and> nonPositiveAt methods 48 3 \<and> fst (methods ! 3) = ''eth_call''
   \<and> generateRequestSequence (constantRandom double048) 0 methods 1
       = ([''abci_query''], 1)
   \<and> roundDouble (constantRandom double03 0 * totalWeight weights) = 30
   \<and> (30::real) < cumulative weights (length weights) \<and> exactRemainders weights 30
   \<and> strictlyExceedsAt weights 30 1 \<and> fst (weights ! 1) = ''eth_getblockreceipts''
   \<and> generateWeightedRequest (constantRandom double03) 0 weights
       = (''other'', 1)"
proof -
  have d: "roundDouble (double048 * 100) = 48" "roundDouble (double03 * 100) = 30"
    by (simp_all add: double048_def double03_def roundDouble_def binaryExponent_def
        roundHalfEven_def Let_def)
  have e: "roundDouble 33 = 33" "roundDouble 21 = 21" "roundDouble 10 = 10" "roundDouble 0 = 0"
    by (simp_all add: roundDouble_def binaryExponent_def roundHalfEven_def Let_def)
  have a: "nonPositiveAt methods 48 3" "fst (methods ! 3) = ''eth_call''"
    "strictlyExceedsAt weights 30 1" "fst (weights ! 1) = ''eth_getblockreceipts''"
    "(48::real) < cumulative methods (length methods)"
    "(30::real) < cumulative weights (length weights)"
    by (simp_all add: methods_def weights_def strictlyExceedsAt_def nonPositiveAt_def
        cumulative_def numeral_3_eq_3 All_less_Suc)
  have x: "exactRemainders methods 48" "exactRemainders weights 30"
    by (simp_all add: methods_def weights_def e)
  have b: "generateRequestSequence (constantRandom double048) 0 methods 1
       = ([''abci_query''], 1)"
    unfolding generateRequestSequence_draws totalWeight_methods constantRandom_apply
    by (simp add: d pushed_def) (simp add: methods_def e)
  have c: "generateWeightedRequest (constantRandom double03) 0 weights
       = (''other'', 1)"
    unfolding generateWeightedRequest_draw totalWeight_weights constantRandom_apply
    by (simp add: d) (simp add: weights_def e Let_def)
  have t: "roundDouble (constantRandom double048 0 * totalWeight methods) = 48"
    "roundDouble (constantRandom double03 0 * totalWeight weights) = 30"
    unfolding totalWeight_methods totalWeight_weights constantRandom_apply by (simp_all add: d)
  from a x b c t show ?thesis by blast
qed


subsection \<open>The sequence as a function of the draws\<close>



subsection \<open>The length of a batch\<close>

lemma not_below_91:
  assumes "91 \<le> x" and "x < 128"
  shows "91 \<le> roundDouble x"
proof -
  define e where "e = max (binaryExponent x) (- 1022)"
  from assms binaryExponent_upper [of x 6] have e: "e \<le> 6" by (simp add: e_def)
  define M :: int where "M = 91 * 2 ^ nat (52 - e)"
  have p: "(2::real) ^ nat (52 - e) = 2 powi (52 - e)" using e by (simp add: power_int_def)
  have q: "(2::real) powi (52 - e) * 2 powi (e - 52) = 1"
    using power_int_add [of "2::real" "52 - e" "e - 52"] by simp
  have M: "real_of_int M * 2 powi (e - 52) = 91"
    using q by (simp add: M_def p)
  have ulp: "(0::real) < 2 powi (e - 52)" by simp
  from M assms(1) have "real_of_int M * 2 powi (e - 52) \<le> x" by simp
  with ulp have "real_of_int M \<le> x / 2 powi (e - 52)" by (simp only: pos_le_divide_eq)
  then have "M \<le> roundHalfEven (x / 2 powi (e - 52))" by (rule roundHalfEven_ge)
  then have "real_of_int M \<le> of_int (roundHalfEven (x / 2 powi (e - 52)))"
    by (simp only: of_int_le_iff)
  with ulp have "real_of_int M * 2 powi (e - 52)
      \<le> of_int (roundHalfEven (x / 2 powi (e - 52))) * 2 powi (e - 52)"
    by (simp only: mult_le_cancel_right_pos)
  moreover have "roundDouble x = of_int (roundHalfEven (x / 2 powi (e - 52))) * 2 powi (e - 52)"
    using assms by (simp add: roundDouble_def Let_def e_def)
  ultimately show ?thesis using M by simp
qed

lemma below_91:
  assumes "0 \<le> x" and "x \<le> 91 - 72 / 2 ^ 53"
  shows "roundDouble x < 91"
proof (cases "x = 0")
  case True
  then show ?thesis by (simp add: roundDouble_def)
next
  case False
  define e where "e = max (binaryExponent x) (- 1022)"
  from False assms binaryExponent_upper [of x 6] have "e \<le> 6" by (simp add: e_def)
  then have "(2::real) powi (e - 52) \<le> 2 powi (- 46)" by (intro power_int_increasing) simp_all
  also have "\<dots> = 1 / 2 ^ 46" by (simp add: power_int_minus field_simps)
  finally have "2 powi (e - 52) / 2 \<le> (64::real) / 2 ^ 53" by simp
  with roundDouble_error [of x] have "\<bar>roundDouble x - x\<bar> \<le> 64 / 2 ^ 53"
    unfolding e_def by linarith
  then have "roundDouble x \<le> x + 64 / 2 ^ 53" by linarith
  also from assms(2) have "\<dots> \<le> 91 - 72 / 2 ^ 53 + 64 / 2 ^ 53" by simp
  also have "\<dots> < 91" by simp
  finally show ?thesis .
qed

lemma double_draw_grid:
  assumes "1 / 2 \<le> u" and "u < 1" and "roundDouble u = u"
  shows "\<exists>n::int. u = of_int n / 2 ^ 53"
proof -
  from assms have u0: "u \<noteq> 0" by auto
  from assms binaryExponent_upper [of u 0] have up: "binaryExponent u \<le> 0" by simp
  have lo: "- 1 \<le> binaryExponent u"
  proof (rule ccontr)
    assume "\<not> - 1 \<le> binaryExponent u"
    then have "binaryExponent u + 1 \<le> - 1" by simp
    then have "(2::real) powi (binaryExponent u + 1) \<le> 2 powi (- 1)"
      by (intro power_int_increasing) simp_all
    moreover from assms u0 binaryExponent_below [of u] have "u < 2 powi (binaryExponent u + 1)"
      by (simp add: less_trans [of u 1])
    ultimately show False using assms(1) by (simp add: power_int_minus)
  qed
  define N where "N = roundHalfEven (u / 2 powi (binaryExponent u - 52))"
  from lo have "max (binaryExponent u) (- 1022) = binaryExponent u" by simp
  with u0 assms(3) have u: "u = of_int N * 2 powi (binaryExponent u - 52)"
    by (simp add: roundDouble_def Let_def N_def)
  from lo up consider "binaryExponent u = - 1" | "binaryExponent u = 0" by linarith
  then show ?thesis
  proof cases
    case 1
    have "(2::real) powi (- 53) = 1 / 2 ^ 53" by (simp add: power_int_minus field_simps)
    with u 1 have "u = of_int N / 2 ^ 53" by simp
    then show ?thesis ..
  next
    case 2
    have "(2::real) powi (- 52) = 2 / 2 ^ 53" by (simp add: power_int_minus field_simps)
    with u 2 have "u = of_int (N * 2) / 2 ^ 53" by simp
    then show ?thesis ..
  qed
qed

lemma rounded_draw_below_91:
  assumes "0 \<le> u" and "u < 1" and "roundDouble u = u"
  shows "roundDouble (u * 100) < 91 \<longleftrightarrow> u * 100 < 91"
proof
  assume r: "roundDouble (u * 100) < 91"
  show "u * 100 < 91"
  proof (rule ccontr)
    assume "\<not> u * 100 < 91"
    with assms(2) have "91 \<le> u * 100" "u * 100 < 128" by simp_all
    from not_below_91 [OF this] r show False by simp
  qed
next
  assume b: "u * 100 < 91"
  show "roundDouble (u * 100) < 91"
  proof (cases "u < 1 / 2")
    case True
    with assms(1) have "0 \<le> u * 100" "u * 100 \<le> 91 - 72 / 2 ^ 53" by simp_all
    then show ?thesis by (rule below_91)
  next
    case False
    with assms double_draw_grid [of u] obtain n :: int where n: "u = of_int n / 2 ^ 53" by auto
    from b have "real_of_int (100 * n) < real_of_int (91 * 2 ^ 53)" by (simp add: n)
    then have "100 * n < 91 * 2 ^ 53" by (simp only: of_int_less_iff)
    then have "100 * n \<le> 91 * 2 ^ 53 - 72" by simp
    then have "real_of_int (100 * n) \<le> real_of_int (91 * 2 ^ 53 - 72)" by (simp only: of_int_le_iff)
    then have "u * 100 \<le> 91 - 72 / 2 ^ 53" by (simp add: n field_simps)
    with assms(1) show ?thesis by (intro below_91) simp_all
  qed
qed


lemma toDescriptor_other: "toDescriptor now ''other'' = None"
  by (simp add: toDescriptor_def templates_def)

lemma weights_of_methods: "\<forall>p\<in>set methods. snd p \<in> \<nat> \<and> 1 \<le> snd p"
  by (simp add: methods_def)

lemma positive_methods: "\<forall>p\<in>set methods. 0 < snd p"
  by (simp add: methods_def)

lemma sum_methods: "sum_list (map snd methods) = 100"
  by (simp add: methods_def)

lemma cumulative_before_other: "cumulative methods 10 = 91"
  by (simp add: cumulative_def methods_def)

lemma templates_before_other:
  assumes "k < 10"
  shows "toDescriptor now (fst (methods ! k)) \<noteq> None"
proof -
  from assms have "k = 0 \<or> k = 1 \<or> k = 2 \<or> k = 3 \<or> k = 4 \<or> k = 5 \<or> k = 6
    \<or> k = 7 \<or> k = 8 \<or> k = 9" by presburger
  then show ?thesis
    by (elim disjE) (simp_all add: methods_def toDescriptor_def templates_def)
qed

lemma pushed_methods:
  assumes "0 \<le> r" and "exactRemainders methods r"
  shows "length (filter (\<lambda>d. d \<noteq> None) (map (toDescriptor now) (pushed methods r)))
           = (if r < 91 then 1 else 0)"
proof (cases "r < 100")
  case False
  then have "sum_list (map snd methods) \<le> r" by (simp add: sum_methods)
  from selectMethod_beyond_total [OF this _ assms(2)] positive_methods
  have "selectMethod methods r = None" by (simp add: less_imp_le)
  with False show ?thesis by (simp add: pushed_def)
next
  case True
  then have "r < sum_list (map snd methods)" by (simp add: sum_methods)
  from selectMethod_first_exceeding [OF assms(1) this assms(2)] obtain k where
    k: "strictlyExceedsAt methods r k" and s: "selectMethod methods r = Some (fst (methods ! k))"
    by blast
  from s have p: "pushed methods r = [fst (methods ! k)]" by (simp add: pushed_def)
  from k have len: "k < 11" by (simp add: strictlyExceedsAt_def methods_def)
  show ?thesis
  proof (cases "r < 91")
    case True
    have "k < 10"
    proof (rule ccontr)
      assume "\<not> k < 10"
      then have "9 < k" by simp
      with k have "cumulative methods (Suc 9) \<le> r" unfolding strictlyExceedsAt_def by blast
      with True show False by (simp add: cumulative_before_other)
    qed
    then have "toDescriptor now (fst (methods ! k)) \<noteq> None"
      by (rule templates_before_other)
    with True show ?thesis by (simp add: p)
  next
    case False
    have "k = 10"
    proof (rule ccontr)
      assume "k \<noteq> 10"
      with len have "Suc k \<le> 10" by simp
      moreover have "10 \<le> length methods" by (simp add: methods_def)
      ultimately have "cumulative methods (Suc k) \<le> cumulative methods 10"
        by (rule cumulative_mono [OF positive_methods])
      then have "cumulative methods (Suc k) \<le> 91" by (simp only: cumulative_before_other)
      moreover from k have "r < cumulative methods (Suc k)" by (simp add: strictlyExceedsAt_def)
      ultimately show False using False by simp
    qed
    then have "fst (methods ! k) = ''other''" by (simp add: methods_def)
    with False show ?thesis by (simp add: p toDescriptor_other)
  qed
qed

lemma kept_descriptors:
  "\<forall>j\<in>set js. 0 \<le> u j \<and> u j < 1 \<and> roundDouble (u j) = u j \<Longrightarrow>
     length (filter (\<lambda>d. d \<noteq> None)
        (map (toDescriptor now) (concat (map (\<lambda>j. pushed methods (roundDouble (u j * 100))) js))))
     = length (filter (\<lambda>j. u j * 100 < 91) js)"
proof (induction js)
  case Nil
  show ?case by simp
next
  case (Cons j js)
  then have u: "0 \<le> u j" "u j < 1" "roundDouble (u j) = u j" by simp_all
  then have "0 \<le> u j * 100" "u j * 100 < 2 ^ 53" by simp_all
  then have "0 \<le> roundDouble (u j * 100)" "exactRemainders methods (roundDouble (u j * 100))"
    by (simp_all add: roundDouble_nonneg exactRemainders_rounded weights_of_methods)
  from pushed_methods [OF this, of now] rounded_draw_below_91 [OF u]
  have "length (filter (\<lambda>d. d \<noteq> None)
          (map (toDescriptor now) (pushed methods (roundDouble (u j * 100)))))
        = (if u j * 100 < 91 then 1 else 0)"
    by simp
  with Cons show ?case by simp
qed

text \<open>
  Claim C8, as the code has it. With every draw a double in \<open>[0, 1)\<close>, as
  \<^verbatim>\<open>Math.random\<close> returns them, \<^verbatim>\<open>generateBatch\<close> for batch size \<open>b\<close> returns one
  descriptor for each of the \<open>b\<close> draws that selects a method with a template, that is,
  for each draw below the cumulative weight 91 at which \<^verbatim>\<open>'other'\<close> begins: at most
  \<open>b\<close> descriptors, and exactly \<open>b\<close> when no draw selects \<^verbatim>\<open>'other'\<close>. The product
  \<^verbatim>\<open>Math.random() * totalWeight\<close> is rounded to a double by the code; the rounding
  never moves it across 91, so the count is stated on the exact product.
\<close>

theorem generateBatch_length:
  assumes "\<forall>j<b. 0 \<le> rand (drawn + j) \<and> rand (drawn + j) < 1
              \<and> roundDouble (rand (drawn + j)) = rand (drawn + j)"
  shows "length (fst (generateBatch rand drawn now b))
           = length (filter (\<lambda>j. rand (drawn + j) * totalWeight methods < cumulative methods 10) [0..<b])
       \<and> length (fst (generateBatch rand drawn now b)) \<le> b
       \<and> ((\<forall>j<b. rand (drawn + j) * totalWeight methods < cumulative methods 10) \<longrightarrow>
            length (fst (generateBatch rand drawn now b)) = b)"
proof -
  have "\<forall>j\<in>set [0..<b]. 0 \<le> rand (drawn + j) \<and> rand (drawn + j) < 1
          \<and> roundDouble (rand (drawn + j)) = rand (drawn + j)"
    using assms by simp
  from kept_descriptors [OF this, of now]
  have len: "length (fst (generateBatch rand drawn now b))
           = length (filter (\<lambda>j. rand (drawn + j) * 100 < 91) [0..<b])"
    by (simp add: generateBatch_def generateRequestSequence_draws totalWeight_methods)
  have "length (filter (\<lambda>j. rand (drawn + j) * 100 < 91) [0..<b]) \<le> length [0..<b]"
    by (rule length_filter_le)
  moreover have "(\<forall>j<b. rand (drawn + j) * 100 < 91) \<longrightarrow>
      filter (\<lambda>j. rand (drawn + j) * 100 < 91) [0..<b] = [0..<b]"
    by (simp add: filter_id_conv)
  ultimately show ?thesis
    unfolding len totalWeight_methods cumulative_before_other by auto
qed

theorem generateBatch_length_witness:
  "0 \<le> constantRandom (1 / 2) 0 \<and> constantRandom (1 / 2) 0 < 1
   \<and> roundDouble (constantRandom (1 / 2) 0) = constantRandom (1 / 2) 0
   \<and> 0 \<le> constantRandom (1 / 2) 1 \<and> constantRandom (1 / 2) 1 < 1
   \<and> roundDouble (constantRandom (1 / 2) 1) = constantRandom (1 / 2) 1
   \<and> constantRandom (1 / 2) 0 * totalWeight methods < cumulative methods 10
   \<and> constantRandom (1 / 2) 1 * totalWeight methods < cumulative methods 10
   \<and> length (fst (generateBatch (constantRandom (1 / 2)) 0 0 2)) = 2"
proof -
  have h: "\<forall>j<2. 0 \<le> constantRandom (1 / 2) (0 + j) \<and> constantRandom (1 / 2) (0 + j) < 1
       \<and> roundDouble (constantRandom (1 / 2) (0 + j)) = constantRandom (1 / 2) (0 + j)"
    by (simp add: constantRandom_apply roundDouble_half)
  have h2: "\<forall>j<2. constantRandom (1 / 2) (0 + j) * totalWeight methods < cumulative methods 10"
    by (simp add: constantRandom_apply totalWeight_methods cumulative_before_other)
  from generateBatch_length [OF h, of 0] h2
  have "length (fst (generateBatch (constantRandom (1 / 2)) 0 0 2)) = 2"
    by blast
  moreover have "0 \<le> constantRandom (1 / 2) 0" "constantRandom (1 / 2) 0 < 1"
    "0 \<le> constantRandom (1 / 2) 1" "constantRandom (1 / 2) 1 < 1"
    "roundDouble (constantRandom (1 / 2) 0) = constantRandom (1 / 2) 0"
    "roundDouble (constantRandom (1 / 2) 1) = constantRandom (1 / 2) 1"
    "constantRandom (1 / 2) 0 * totalWeight methods < cumulative methods 10"
    "constantRandom (1 / 2) 1 * totalWeight methods < cumulative methods 10"
    by (simp_all add: constantRandom_apply totalWeight_methods cumulative_before_other
        roundDouble_half)
  ultimately show ?thesis by blast
qed

text \<open>
  A draw of \<^verbatim>\<open>'other'\<close>, which has weight 9 and no template, is mapped to
  \<^verbatim>\<open>null\<close> and filtered out: a batch of size 1 comes back empty. The draw is the
  double \<open>15 / 16\<close>, whose product with the total weight 100 is the double \<open>93.75\<close>.
\<close>

theorem generateBatch_drops_other_counterexample:
  "0 \<le> constantRandom (15 / 16) 0 \<and> constantRandom (15 / 16) 0 < 1
   \<and> roundDouble (constantRandom (15 / 16) 0) = constantRandom (15 / 16) 0
   \<and> fst (generateRequestSequence (constantRandom (15 / 16)) 0 methods 1) = [''other'']
   \<and> fst (generateBatch (constantRandom (15 / 16)) 0 0 1) = []"
proof -
  have e: "roundDouble (15 / 16) = 15 / 16" "roundDouble (375 / 4) = 375 / 4"
    "roundDouble (315 / 4) = 315 / 4" "roundDouble (267 / 4) = 267 / 4"
    "roundDouble (223 / 4) = 223 / 4" "roundDouble (183 / 4) = 183 / 4"
    "roundDouble (143 / 4) = 143 / 4" "roundDouble (111 / 4) = 111 / 4"
    "roundDouble (83 / 4) = 83 / 4" "roundDouble (55 / 4) = 55 / 4"
    "roundDouble (31 / 4) = 31 / 4" "roundDouble (11 / 4) = 11 / 4"
    by (simp_all add: roundDouble_def binaryExponent_def roundHalfEven_def Let_def)
  have p: "pushed methods (375 / 4) = [''other'']"
    by (simp add: pushed_def methods_def e)
  show ?thesis
    by (simp add: generateBatch_def generateRequestSequence_draws totalWeight_methods
        constantRandom_apply p e toDescriptor_other)
qed

section \<open>Properties of the fingerprint\<close>

lemma beyond_bound: "3 < depth \<Longrightarrow> createStructuralPattern x depth = PString ''MAX_DEPTH''"
proof (cases x)
  case (JArray xs)
  assume "3 < depth"
  with JArray show ?thesis by (cases xs) simp_all
qed simp_all

lemma reduceKeys_graft:
  assumes "\<And>v. createStructuralPattern (graft n z v) (Suc depth) = createStructuralPattern v (Suc depth)"
  shows "reduceKeys (map (\<lambda>(k, v). (k, graft n z v)) kvs) depth acc = reduceKeys kvs depth acc"
  by (induction kvs arbitrary: acc) (auto simp: assms)

lemma pattern_graft:
  "depth + n = 4 \<Longrightarrow> createStructuralPattern (graft n z x) depth = createStructuralPattern x depth"
proof (induction n arbitrary: x depth)
  case 0
  then show ?case by (simp add: beyond_bound)
next
  case (Suc n)
  then have d: "\<not> 3 < depth" and n: "Suc depth + n = 4" by simp_all
  note IH = Suc.IH [OF n]
  show ?case
  proof (cases x)
    case (JArray xs)
    with d IH show ?thesis by (cases xs) simp_all
  next
    case (JObject kvs)
    with d reduceKeys_graft [of n z depth kvs "[]", OF IH] show ?thesis by simp
  qed simp_all
qed

text \<open>
  Claim C2, as the code has it. The depth counts from \<open>0\<close> at the root and the
  guard is \<^verbatim>\<open>depth > 3\<close>: the nodes at depths \<open>0\<close> to \<open>3\<close>, four levels, are
  examined, and every subtree at depth \<open>4\<close> or below collapses to \<^verbatim>\<open>'MAX_DEPTH'\<close>
  whatever it contains. Replacing all subtrees at depth \<open>4\<close> of a value by any
  other value leaves the fingerprint unchanged; so a value nested five levels deep
  has the fingerprint of the value nested four levels deep with the same prefix.
\<close>

theorem fingerprint_depth_bound:
  "createStructuralPattern x (4 + depth) = PString ''MAX_DEPTH''
   \<and> createStructuralPattern (graft 4 z x) 0 = createStructuralPattern x 0
   \<and> extractResponsePattern (graft 4 z x) = extractResponsePattern x"
  by (simp add: beyond_bound pattern_graft extractResponsePattern_def)

theorem fingerprint_depth_bound_witness:
  "graft 4 (JObject [(''e'', JNumber 1)]) nestedFour = nestedFive
   \<and> extractResponsePattern nestedFive = extractResponsePattern nestedFour
   \<and> createStructuralPattern nestedFive 0
       = PObject [(''a'', PObject [(''b'', PObject [(''c'', PObject [(''d'', PString ''MAX_DEPTH'')])])])]"
proof -
  have g: "graft 4 (JObject [(''e'', JNumber 1)]) nestedFour = nestedFive"
    by (simp add: nestedFour_def nestedFive_def numeral_eq_Suc)
  have "createStructuralPattern nestedFive 0
       = PObject [(''a'', PObject [(''b'', PObject [(''c'', PObject [(''d'', PString ''MAX_DEPTH'')])])])]"
    by (simp add: nestedFive_def assign_def)
  with fingerprint_depth_bound [of nestedFour 0 "JObject [(''e'', JNumber 1)]"] g
  show ?thesis by simp
qed

text \<open>
  With a bound of three levels the statement fails: the subtree at depth \<open>3\<close> is
  still examined. The object nested three levels deep and the object nested five
  levels deep along the same three keys have different fingerprints.
\<close>

theorem fingerprint_three_levels_counterexample:
  "graft 3 (JObject [(''d'', JObject [(''e'', JNumber 1)])]) nestedThree = nestedFive
   \<and> createStructuralPattern nestedThree 0
       = PObject [(''a'', PObject [(''b'', PObject [(''c'', PString ''NUMBER'')])])]
   \<and> createStructuralPattern nestedFive 0
       = PObject [(''a'', PObject [(''b'', PObject [(''c'', PObject [(''d'', PString ''MAX_DEPTH'')])])])]
   \<and> extractResponsePattern nestedFive \<noteq> extractResponsePattern nestedThree"
  by (simp add: extractResponsePattern_def nestedThree_def nestedFive_def assign_def
      quoteString_def escapeChar_def numeral_eq_Suc)

subsection \<open>Values of the same shape\<close>

lemma reduceKeys_sameShape:
  assumes "\<And>v w. sameShape n v w \<Longrightarrow>
      createStructuralPattern v (Suc depth) = createStructuralPattern w (Suc depth)"
  shows "map fst kvs = map fst kvs' \<Longrightarrow> list_all2 (sameShape n) (map snd kvs) (map snd kvs') \<Longrightarrow>
      reduceKeys kvs depth acc = reduceKeys kvs' depth acc"
proof (induction kvs arbitrary: kvs' acc)
  case Nil
  then show ?case by simp
next
  case (Cons kv kvs)
  then obtain kv' rest where kvs': "kvs' = kv' # rest" by (cases kvs') auto
  obtain k v where kv: "kv = (k, v)" by (cases kv)
  obtain k' v' where kv': "kv' = (k', v')" by (cases kv')
  from Cons.prems have "k = k'" "sameShape n v v'"
    "map fst kvs = map fst rest" "list_all2 (sameShape n) (map snd kvs) (map snd rest)"
    by (simp_all add: kvs' kv kv')
  with Cons.IH [of rest] assms [of v v'] show ?case
    by (simp add: kvs' kv kv')
qed

lemma pattern_sameShape:
  "depth + n = 4 \<Longrightarrow> sameShape n x y \<Longrightarrow>
     createStructuralPattern x depth = createStructuralPattern y depth"
proof (induction n arbitrary: x y depth)
  case 0
  then show ?case by (simp add: beyond_bound)
next
  case (Suc n)
  then have d: "\<not> 3 < depth" and n: "Suc depth + n = 4" by simp_all
  note IH = Suc.IH [OF n]
  show ?case
  proof (cases x)
    case (JArray xs)
    with Suc.prems(2) obtain ys where y: "y = JArray ys" and l: "list_all2 (sameShape n) xs ys"
      by (cases y) simp_all
    show ?thesis
    proof (cases xs)
      case Nil
      with l JArray y show ?thesis by simp
    next
      case (Cons x' xs')
      with l obtain y' ys' where ys: "ys = y' # ys'" and s: "sameShape n x' y'"
        by (cases ys) simp_all
      from IH [OF s] d show ?thesis by (simp add: JArray y Cons ys)
    qed
  next
    case (JObject kvs)
    with Suc.prems(2) obtain kvs' where y: "y = JObject kvs'"
      and k: "map fst kvs = map fst kvs'"
      and l: "list_all2 (sameShape n) (map snd kvs) (map snd kvs')"
      by (cases y) simp_all
    from reduceKeys_sameShape [of n depth kvs kvs' "[]", OF IH k l] d
    show ?thesis by (simp add: JObject y)
  next
    case JUndefined
    with Suc.prems(2) show ?thesis by simp
  next
    case JNull
    with Suc.prems(2) show ?thesis by simp
  next
    case (JBoolean b)
    with Suc.prems(2) show ?thesis by (cases y) simp_all
  next
    case (JNumber a)
    with Suc.prems(2) show ?thesis by (cases y) simp_all
  next
    case (JString s)
    with Suc.prems(2) show ?thesis by (cases y) simp_all
  qed
qed

text \<open>
  Claim C3. Two values with identical key sets, key order, nesting structure and
  primitive type tags at depths \<open>0\<close> to \<open>3\<close> have the same fingerprint, whatever
  their primitive values are. At these depths a non-empty array is represented by
  the one-element array of its first element's pattern, an empty array by
  \<^verbatim>\<open>'EMPTY_ARRAY'\<close>, \<^verbatim>\<open>null\<close> by \<^verbatim>\<open>'NULL'\<close> and a primitive by its type tag alone.
\<close>

theorem fingerprint_same_shape:
  assumes "sameShape 4 x y"
  shows "extractResponsePattern x = extractResponsePattern y
       \<and> (depth \<le> 3 \<longrightarrow>
            createStructuralPattern (JArray (v # vs)) depth = PArray [createStructuralPattern v (depth + 1)]
          \<and> createStructuralPattern (JArray []) depth = PString ''EMPTY_ARRAY''
          \<and> createStructuralPattern JNull depth = PString ''NULL''
          \<and> createStructuralPattern (JString s) depth = PString ''STRING''
          \<and> createStructuralPattern (JNumber a) depth = PString ''NUMBER''
          \<and> createStructuralPattern (JBoolean b) depth = PString ''BOOLEAN'')"
proof -
  from assms have "createStructuralPattern x 0 = createStructuralPattern y 0"
    by (intro pattern_sameShape) simp_all
  then show ?thesis by (simp add: extractResponsePattern_def)
qed

theorem fingerprint_same_shape_witness:
  "sameShape 4 sampleBodyA sampleBodyB
   \<and> sampleBodyA \<noteq> sampleBodyB
   \<and> extractResponsePattern sampleBodyA = extractResponsePattern sampleBodyB
   \<and> createStructuralPattern sampleBodyA 0
       = PObject [(''height'', PString ''STRING''), (''txs'', PArray [PString ''NUMBER'']),
                  (''ok'', PString ''BOOLEAN''), (''next'', PString ''NULL'')]"
proof -
  have h: "sameShape 4 sampleBodyA sampleBodyB"
    by (simp add: sampleBodyA_def sampleBodyB_def numeral_eq_Suc)
  have "createStructuralPattern sampleBodyA 0
       = PObject [(''height'', PString ''STRING''), (''txs'', PArray [PString ''NUMBER'']),
                  (''ok'', PString ''BOOLEAN''), (''next'', PString ''NULL'')]"
    by (simp add: sampleBodyA_def assign_def)
  moreover have "sampleBodyA \<noteq> sampleBodyB"
    by (simp add: sampleBodyA_def sampleBodyB_def)
  moreover have "extractResponsePattern sampleBodyA = extractResponsePattern sampleBodyB"
    using fingerprint_same_shape [OF h] by (rule conjunct1)
  ultimately show ?thesis using h by blast
qed


section \<open>Properties of the worker loop\<close>

lemma rateLimitTimestamps_workerIteration:
  "rateLimitTimestamps (collector (workerIteration mc rand drawn requestType requestStart now result))
     = rateLimitTimestamps mc @ (if result = Rejected (Some 429) then [now] else [])"
  by (cases result)
     (simp_all add: workerIteration_def Let_def rateLimitTimestamps_recordRequest takeSnapshot_counts)

lemma rateLimitTimestamps_poolRun:
  "rateLimitTimestamps (fst (poolRun mc rand drawn its))
     = rateLimitTimestamps mc
       @ map iterationEnd (filter (\<lambda>it. iterationResult it = Rejected (Some 429)) its)"
proof (induction its arbitrary: mc drawn)
  case Nil
  show ?case by simp
next
  case (Cons it its)
  show ?case
    by (simp add: Let_def Cons.IH rateLimitTimestamps_workerIteration)
qed

lemma recent_hits_poolRun:
  "getRecentRateLimitHits (fst (poolRun mc rand drawn its)) now w =
     getRecentRateLimitHits mc now w
     + length (filter (\<lambda>it. iterationResult it = Rejected (Some 429) \<and> now - iterationEnd it \<le> w) its)"
proof -
  have "filter (\<lambda>ts. now - ts \<le> w)
          (map iterationEnd (filter (\<lambda>it. iterationResult it = Rejected (Some 429)) its))
      = map iterationEnd
          (filter (\<lambda>it. iterationResult it = Rejected (Some 429) \<and> now - iterationEnd it \<le> w) its)"
    by (induction its) auto
  then show ?thesis
    by (simp add: getRecentRateLimitHits_def rateLimitTimestamps_poolRun)
qed

lemma pause_workerIteration:
  "pause (workerIteration mc rand drawn requestType requestStart now result) =
     (if 10 < getRecentRateLimitHits
                (collector (workerIteration mc rand drawn requestType requestStart now result))
                now 60000
      then 1000 else 0)"
  by (simp add: workerIteration_def Let_def)

lemma recent_hits_workerIteration:
  "getRecentRateLimitHits mc now w
     \<le> getRecentRateLimitHits
          (collector (workerIteration mc rand drawn requestType requestStart t result)) now w"
  by (simp add: getRecentRateLimitHits_def rateLimitTimestamps_workerIteration)

text \<open>
  Claim C5. Let the workers of the pool have made any passes through the loop, and
  let a worker, whichever it is, finish a pass at clock reading \<open>now\<close>. If more than
  10 of the passes made so far ended with status 429 at a time \<open>ts\<close> with
  \<open>now - ts \<le> 60000\<close>, then the rate-limit check of this pass, which reads the
  shared collector, makes the worker wait 1000 ms before the loop pulls its next
  request. The wait is the delay handed to \<^verbatim>\<open>setTimeout\<close>.
\<close>

theorem backpressure_pause:
  assumes "10 < length (filter (\<lambda>it. iterationResult it = Rejected (Some 429)
                                    \<and> now - iterationEnd it \<le> 60000) its)"
  shows "1000 \<le> pause (workerIteration (fst (poolRun (newMetricCollector t) rand drawn its))
                          rand drawn' requestType requestStart now result)"
proof -
  let ?mc = "fst (poolRun (newMetricCollector t) rand drawn its)"
  from assms have "10 < getRecentRateLimitHits ?mc now 60000"
    by (simp add: recent_hits_poolRun)
  also have "\<dots> \<le> getRecentRateLimitHits
      (collector (workerIteration ?mc rand drawn' requestType requestStart now result)) now 60000"
    by (rule recent_hits_workerIteration)
  finally show ?thesis by (simp add: pause_workerIteration)
qed

theorem backpressure_pause_witness:
  "10 < length (filter (\<lambda>it. iterationResult it = Rejected (Some 429) \<and> 500 - iterationEnd it \<le> 60000)
                  (replicate 11 (rateLimitedIteration ''worker-a'' 100)))
   \<and> pause (workerIteration
              (fst (poolRun (newMetricCollector 0) (constantRandom (1 / 2)) 0
                      (replicate 11 (rateLimitedIteration ''worker-a'' 100))))
              (constantRandom (1 / 2)) 11 ''eth_getbalance'' 400 500 Responded) = 1000"
proof -
  have h: "10 < length (filter (\<lambda>it. iterationResult it = Rejected (Some 429) \<and> 500 - iterationEnd it \<le> 60000)
                  (replicate 11 (rateLimitedIteration ''worker-a'' 100)))"
    by (simp add: rateLimitedIteration_def)
  from backpressure_pause [OF h, where t = 0 and rand = "constantRandom (1 / 2)" and drawn = 0
      and drawn' = 11 and requestType = "''eth_getbalance''" and requestStart = 400
      and result = Responded]
  have "pause (workerIteration
              (fst (poolRun (newMetricCollector 0) (constantRandom (1 / 2)) 0
                      (replicate 11 (rateLimitedIteration ''worker-a'' 100))))
              (constantRandom (1 / 2)) 11 ''eth_getbalance'' 400 500 Responded) = 1000"
    by (simp add: pause_workerIteration split: if_splits)
  with h show ?thesis by blast
qed


section \<open>Properties of scenario execution\<close>

subsection \<open>The chunks of a list\<close>

lemma take_min_length: "take (min n (length ys)) ys = take n ys"
  by (simp add: min_def)

lemma slice_chunk:
  "slice array (int i) (int i + int n) = take n (drop i array)"
proof -
  have "nat (min (int i + int n) (int (length array)) - min (int i) (int (length array)))
      = min (i + n) (length array) - min i (length array)"
    by (simp add: min_def) linarith
  moreover have "nat (min (int i) (int (length array))) = min i (length array)"
    by (simp add: min_def)
  ultimately have "slice array (int i) (int i + int n)
      = take (min (i + n) (length array) - min i (length array)) (drop (min i (length array)) array)"
    by (simp add: slice_def Let_def)
  also have "\<dots> = take n (drop i array)"
  proof (cases "i \<le> length array")
    case True
    then have "min (i + n) (length array) - min i (length array) = min n (length (drop i array))"
      "min i (length array) = i"
      by auto
    then show ?thesis by (simp only: take_min_length)
  next
    case False
    then show ?thesis by (simp add: min_def)
  qed
  finally show ?thesis .
qed

lemma more_chunks: "0 < n \<Longrightarrow> k * n < len \<longleftrightarrow> k < (len + n - 1) div n" for n k len :: nat
proof -
  assume n: "0 < n"
  have "(len + n - 1) div n \<le> k \<longleftrightarrow> (len + n - 1) div n < Suc k" by auto
  also have "\<dots> \<longleftrightarrow> len + n - 1 < Suc k * n"
    using n by (simp add: div_less_iff_less_mult)
  also have "\<dots> \<longleftrightarrow> len \<le> k * n" using n by auto
  finally show ?thesis by auto
qed

lemma chunkLoop_stop:
  "\<not> i < length array \<Longrightarrow> chunkLoop array sz (int i) chunks = Some chunks"
  by (subst chunkLoop.simps) simp

lemma chunkLoop_step:
  "i < length array \<Longrightarrow>
     chunkLoop array (int n) (int i) chunks =
       chunkLoop array (int n) (int (i + n)) (chunks @ [take n (drop i array)])"
  by (subst chunkLoop.simps) (simp add: slice_chunk)

lemma chunkLoop_positive:
  assumes n: "0 < n"
  shows "chunkLoop array (int n) (int (k * n)) chunks =
           Some (chunks @ map (\<lambda>j. take n (drop (j * n) array)) [k..<(length array + n - 1) div n])"
proof (induction "(length array + n - 1) div n - k" arbitrary: k chunks)
  case 0
  then have "\<not> k < (length array + n - 1) div n" by simp
  with more_chunks [OF n, of k "length array"] have "\<not> k * n < length array" by simp
  from chunkLoop_stop [OF this] 0 show ?case by simp
next
  case (Suc m)
  then have lt: "k < (length array + n - 1) div n" by simp
  with more_chunks [OF n, of k "length array"] have c: "k * n < length array" by simp
  have m: "m = (length array + n - 1) div n - Suc k" using Suc.hyps(2) by simp
  have "chunkLoop array (int n) (int (k * n)) chunks
      = chunkLoop array (int n) (int (Suc k * n)) (chunks @ [take n (drop (k * n) array)])"
    using chunkLoop_step [OF c] by (simp add: add.commute)
  also have "\<dots> = Some ((chunks @ [take n (drop (k * n) array)])
      @ map (\<lambda>j. take n (drop (j * n) array)) [Suc k..<(length array + n - 1) div n])"
    by (rule Suc.hyps(1) [OF m])
  also have "\<dots> = Some (chunks @ map (\<lambda>j. take n (drop (j * n) array)) [k..<(length array + n - 1) div n])"
    using lt by (simp add: upt_conv_Cons)
  finally show ?case .
qed

lemma chunkArray_positive:
  "0 < n \<Longrightarrow> chunkArray array (int n) = Some (batchesOf n array)"
  using chunkLoop_positive [of n array 0 "[]"] by (simp add: chunkArray_def batchesOf_def)

lemma chunkArray_empty: "chunkArray [] sz = Some []"
  by (simp add: chunkArray_def chunkLoop.simps)

lemma chunkLoop_diverges:
  assumes "chunkLoop array sz i chunks = Some y"
  shows "\<not> (sz \<le> 0 \<and> i < int (length array))"
proof (rule chunkLoop.raw_induct
    [where P = "\<lambda>array sz i chunks y. \<not> (sz \<le> 0 \<and> i < int (length array))", OF _ assms])
  fix f :: "'a list \<Rightarrow> int \<Rightarrow> int \<Rightarrow> 'a list list \<Rightarrow> 'a list list option"
    and a s j c r
  assume IH: "\<And>a' s' j' c' r'. f a' s' j' c' = Some r' \<Longrightarrow> \<not> (s' \<le> 0 \<and> j' < int (length a'))"
    and eq: "(if j < int (length a) then f a s (j + s) (c @ [slice a j (j + s)]) else Some c) = Some r"
  show "\<not> (s \<le> 0 \<and> j < int (length a))"
  proof
    assume b: "s \<le> 0 \<and> j < int (length a)"
    with eq have "f a s (j + s) (c @ [slice a j (j + s)]) = Some r" by simp
    from IH [OF this] b show False by simp
  qed
qed

lemma chunkArray_diverges: "sz \<le> 0 \<Longrightarrow> array \<noteq> [] \<Longrightarrow> chunkArray array sz = None"
  using chunkLoop_diverges [of array sz 0 "[]"] by (cases "chunkArray array sz") (auto simp: chunkArray_def)

lemma runBatches_closed:
  "runBatches responds bs issued =
     (if list_all (list_all responds) bs then Completed (issued @ bs)
      else Aborted (issued @ takeWhile (list_all responds) bs
                    @ take 1 (dropWhile (list_all responds) bs)))"
  by (induction bs arbitrary: issued) auto

lemma concat_chunks:
  "concat (map (\<lambda>j. take n (drop (j * n) xs)) [0..<k]) = take (k * n) xs"
proof (induction k)
  case 0
  show ?case by simp
next
  case (Suc k)
  have "take (k * n) xs @ take n (drop (k * n) xs) = take (k * n + n) xs"
    by (simp add: take_add)
  with Suc show ?case by (simp add: add.commute)
qed

lemma concat_batchesOf: "0 < n \<Longrightarrow> concat (batchesOf n xs) = xs"
proof -
  assume n: "0 < n"
  from more_chunks [OF n, of "(length xs + n - 1) div n" "length xs"]
  have "length xs \<le> (length xs + n - 1) div n * n" by simp
  then show ?thesis by (simp add: batchesOf_def concat_chunks)
qed

lemma length_batchesOf: "length (batchesOf n xs) = (length xs + n - 1) div n"
  by (simp add: batchesOf_def)

lemma batch_sizes:
  assumes n: "0 < n"
  shows "\<forall>b\<in>set (batchesOf n xs). 0 < length b \<and> length b \<le> n"
proof
  fix b assume "b \<in> set (batchesOf n xs)"
  then obtain j where j: "j < (length xs + n - 1) div n" and b: "b = take n (drop (j * n) xs)"
    by (auto simp: batchesOf_def)
  from more_chunks [OF n, of j "length xs"] j have "j * n < length xs" by simp
  with n show "0 < length b \<and> length b \<le> n" by (simp add: b)
qed

lemma butlast_upt_0: "butlast [0..<k] = [0..<k - 1]"
  by (cases k) simp_all

lemma full_batches:
  assumes n: "0 < n"
  shows "\<forall>b\<in>set (butlast (batchesOf n xs)). length b = n"
proof
  fix b assume "b \<in> set (butlast (batchesOf n xs))"
  then have "b \<in> set (map (\<lambda>j. take n (drop (j * n) xs)) [0..<(length xs + n - 1) div n - 1])"
    by (simp add: batchesOf_def map_butlast [symmetric] butlast_upt_0)
  then obtain j where "j < (length xs + n - 1) div n - 1" and b: "b = take n (drop (j * n) xs)"
    by auto
  then have j: "Suc j < (length xs + n - 1) div n" by simp
  from more_chunks [OF n, of "Suc j" "length xs"] j have "j * n + n < length xs"
    by (simp add: add.commute)
  then show "length b = n" by (simp add: b)
qed

subsection \<open>The batches of a scenario\<close>

text \<open>
  The effective concurrency is the ceiling of a double: for the base concurrency
  \<^verbatim>\<open>0.2\<close> and the weight 5 the product rounds to 1.
\<close>

lemma effectiveConcurrency_of_double:
  "effectiveConcurrency (3602879701896397 / 2 ^ 54)
     \<lparr> scenarioName = ''fifth'', scenarioWeight = 5, scenarioQueries = [''/q1''] \<rparr> = 1"
  by (simp add: effectiveConcurrency_def roundDouble_def binaryExponent_def roundHalfEven_def
      Let_def)

text \<open>
  The batches of any scenario of positive effective concurrency \<open>c\<close>, with \<open>n\<close> the
  minimum of the length of the request list and \<open>c\<close>: \<^verbatim>\<open>runScenario\<close> cuts the list
  into consecutive batches of \<open>n\<close> requests, the last one holding the remainder, and
  goes through them in order, issuing the requests of a batch together and awaiting
  them all before the next batch. When every request succeeds all batches are issued.
\<close>

lemma runScenario_chunks:
  assumes pos: "0 < effectiveConcurrency initialConcurrency sc"
  shows "(let qs = scenarioQueries sc;
           n = nat (min (int (length qs)) (effectiveConcurrency initialConcurrency sc));
           batches = batchesOf n qs
       in runScenario initialConcurrency responds sc = Some (runBatches responds batches [])
        \<and> concat batches = qs
        \<and> length batches = (length qs + n - 1) div n
        \<and> (\<forall>b\<in>set (butlast batches). length b = n)
        \<and> (\<forall>b\<in>set batches. 0 < length b \<and> length b \<le> n)
        \<and> (list_all responds qs \<longrightarrow>
              runScenario initialConcurrency responds sc = Some (Completed batches)))"
proof -
  define qs where "qs = scenarioQueries sc"
  define c where "c = effectiveConcurrency initialConcurrency sc"
  define n where "n = nat (min (int (length qs)) c)"
  define batches where "batches = batchesOf n qs"
  from pos have c: "0 < c" by (simp add: c_def)
  have empty: "qs = [] \<Longrightarrow> batches = []"
    by (simp add: batches_def batchesOf_def n_def)
  have run: "runScenario initialConcurrency responds sc = Some (runBatches responds batches [])"
  proof (cases "qs = []")
    case True
    with empty show ?thesis
      by (simp add: runScenario_def Let_def qs_def [symmetric] chunkArray_empty)
  next
    case False
    with c have n: "0 < n" "min (int (length qs)) c = int n" by (simp_all add: n_def)
    from chunkArray_positive [OF n(1), of qs] show ?thesis
      by (simp add: runScenario_def Let_def qs_def [symmetric]
          c_def [symmetric] n(2) batches_def)
  qed
  have cat: "concat batches = qs"
  proof (cases "qs = []")
    case True
    with empty show ?thesis by simp
  next
    case False
    with c have "0 < n" by (simp add: n_def)
    then show ?thesis by (simp add: batches_def concat_batchesOf)
  qed
  have sizes: "(\<forall>b\<in>set (butlast batches). length b = n)
      \<and> (\<forall>b\<in>set batches. 0 < length b \<and> length b \<le> n)"
  proof (cases "qs = []")
    case True
    with empty show ?thesis by simp
  next
    case False
    with c have "0 < n" by (simp add: n_def)
    with batch_sizes [of n qs] full_batches [of n qs] show ?thesis by (simp add: batches_def)
  qed
  have all: "list_all responds qs \<longleftrightarrow> list_all (list_all responds) batches"
    unfolding cat [symmetric] by (induction batches) auto
  show ?thesis
    unfolding Let_def qs_def [symmetric] c_def [symmetric] n_def [symmetric] batches_def [symmetric]
    using run cat sizes all
    by (simp add: runBatches_closed batches_def length_batchesOf)
qed

text \<open>
  Claim C4. The scenario of four descriptors of weight 1 at base concurrency 2 has
  effective concurrency 2 and its request list is cut into the two batches
  \<open>[/q1, /q2]\<close> and \<open>[/q3, /q4]\<close>. When every request succeeds both batches are
  issued, one after the other. When the request for \<open>/q1\<close> fails, \<^verbatim>\<open>makeRequest\<close>
  records the error and rethrows it, \<^verbatim>\<open>Promise.all\<close> rejects, nothing in
  \<^verbatim>\<open>runScenario\<close> catches the rejection, and the second batch is never issued: one
  batch, not the two batches the claim states.
\<close>

theorem runScenario_failed_request:
  "effectiveConcurrency 2 fourQueries = 2
   \<and> length (scenarioQueries fourQueries) = 4
   \<and> chunkArray (scenarioQueries fourQueries)
        (min (int (length (scenarioQueries fourQueries))) (effectiveConcurrency 2 fourQueries))
       = Some [[''/q1'', ''/q2''], [''/q3'', ''/q4'']]
   \<and> runScenario 2 (respondsExcept ''/none'') fourQueries
       = Some (Completed [[''/q1'', ''/q2''], [''/q3'', ''/q4'']])
   \<and> runScenario 2 (respondsExcept ''/q1'') fourQueries = Some (Aborted [[''/q1'', ''/q2'']])"
proof -
  have r: "roundDouble 2 = 2"
    by (simp add: roundDouble_def binaryExponent_def roundHalfEven_def Let_def)
  have c: "effectiveConcurrency 2 fourQueries = 2"
    by (simp add: effectiveConcurrency_def fourQueries_def r)
  have m: "min (int (length (scenarioQueries fourQueries))) (effectiveConcurrency 2 fourQueries) = 2"
    unfolding c by (simp add: fourQueries_def)
  have b: "chunkArray (scenarioQueries fourQueries) 2 = Some [[''/q1'', ''/q2''], [''/q3'', ''/q4'']]"
    using chunkArray_positive [of 2 "scenarioQueries fourQueries"]
    by (simp add: batchesOf_def fourQueries_def upt_rec)
  have l: "length (scenarioQueries fourQueries) = 4"
    by (simp add: fourQueries_def)
  have "runScenario 2 (respondsExcept ''/none'') fourQueries
       = Some (Completed [[''/q1'', ''/q2''], [''/q3'', ''/q4'']])"
    "runScenario 2 (respondsExcept ''/q1'') fourQueries = Some (Aborted [[''/q1'', ''/q2'']])"
    by (simp_all add: runScenario_def Let_def m b respondsExcept_def)
  with c l m b show ?thesis by simp
qed

end
